theory Spec2Isabelle
  imports Main "HOL-Library.Multiset"
begin

section \<open>Grid model\<close>

text \<open>
  The session state of \<^verbatim>\<open>maze.js\<close>. A \<^verbatim>\<open>MazeCell\<close> has a type (the strings
  \<^verbatim>\<open>'wall'\<close> and \<^verbatim>\<open>'path'\<close>), a \<^verbatim>\<open>filled\<close> flag and a \<^verbatim>\<open>deadEnd\<close> flag. The grid
  \<^verbatim>\<open>state.maze\<close> is an array of rows, \<^verbatim>\<open>state.maze[y][x]\<close>. Coordinates are JavaScript
  numbers that only ever hold integers, modelled as \<open>int\<close>.

  The record models the session from the end of \<^verbatim>\<open>init()\<close> on: \<^verbatim>\<open>state.maze\<close>,
  \<^verbatim>\<open>state.player\<close>, \<^verbatim>\<open>state.start\<close> and \<^verbatim>\<open>state.end\<close> are set by then, so the
  \<^verbatim>\<open>null\<close> guards of the source (\<^verbatim>\<open>if (!state.maze) return\<close>, \<^verbatim>\<open>state.start && ...\<close>)
  are never taken. Of the player only the grid position is kept; rendering, audio,
  animation and timer fields are left out.
\<close>

datatype error = TypeError

datatype ctype = Wall | Path

record cell =
  ctype :: ctype
  filled :: bool
  deadEnd :: bool

type_synonym coord = "int \<times> int"

record snapshot =
  prevX :: int
  prevY :: int
  snapFilled :: "coord option"

record state =
  cols :: int
  rows :: int
  maze :: "cell list list"
  player :: coord
  start :: coord
  endp :: coord
  originalPathCount :: nat
  visitedCount :: nat
  undoStack :: "snapshot list"
  score :: int
  highscore :: int

text \<open>\<^verbatim>\<open>new MazeCell(type)\<close>.\<close>

definition MazeCell :: "ctype \<Rightarrow> cell" where
  "MazeCell t = \<lparr>ctype = t, filled = False, deadEnd = False\<rparr>"

text \<open>
  Reading \<^verbatim>\<open>m[y][x]\<close> and then a property of the cell. JavaScript yields
  \<^verbatim>\<open>undefined\<close> for an index outside an array, and reading a property of
  \<^verbatim>\<open>undefined\<close> throws a \<^verbatim>\<open>TypeError\<close>: so does \<^verbatim>\<open>m[y][x]\<close> when row \<open>y\<close> is
  missing, and \<^verbatim>\<open>m[y][x].type\<close> when cell \<open>x\<close> is.
\<close>

definition getCell :: "cell list list \<Rightarrow> int \<Rightarrow> int \<Rightarrow> error + cell" where
  "getCell m x y =
     (if 0 \<le> y \<and> y < int (length m) \<and> 0 \<le> x \<and> x < int (length (m ! nat y))
      then Inr (m ! nat y ! nat x) else Inl TypeError)"

text \<open>Writing a field of the cell object at \<^verbatim>\<open>m[y][x]\<close>, once it has been read.\<close>

definition setCell :: "cell list list \<Rightarrow> int \<Rightarrow> int \<Rightarrow> cell \<Rightarrow> cell list list" where
  "setCell m x y c = m[nat y := (m ! nat y)[nat x := c]]"

definition inBounds :: "state \<Rightarrow> int \<Rightarrow> int \<Rightarrow> bool" where
  "inBounds s x y \<longleftrightarrow> x \<ge> 0 \<and> y \<ge> 0 \<and> x < cols s \<and> y < rows s"

text \<open>\<^verbatim>\<open>isWalkable(x, y)\<close>.\<close>

definition isWalkable :: "state \<Rightarrow> int \<Rightarrow> int \<Rightarrow> error + bool" where
  "isWalkable s x y =
     (if \<not> inBounds s x y then Inr False
      else case getCell (maze s) x y of
             Inl e \<Rightarrow> Inl e
           | Inr c \<Rightarrow> Inr (ctype c = Path \<and> \<not> filled c))"

text \<open>A loop body run over a list of items, stopping at the first exception.\<close>

fun foldE :: "('s \<Rightarrow> 'a \<Rightarrow> error + 's) \<Rightarrow> 'a list \<Rightarrow> 's \<Rightarrow> error + 's" where
  "foldE f [] s = Inr s"
| "foldE f (a # as) s = (case f s a of Inl e \<Rightarrow> Inl e | Inr s' \<Rightarrow> foldE f as s')"

text \<open>
  The \<^verbatim>\<open>forEach\<close> over the four directions that increments a counter where a test
  holds.
\<close>

fun countE :: "('a \<Rightarrow> error + bool) \<Rightarrow> 'a list \<Rightarrow> error + nat" where
  "countE p [] = Inr 0"
| "countE p (a # as) =
     (case p a of
        Inl e \<Rightarrow> Inl e
      | Inr b \<Rightarrow> (case countE p as of
                   Inl e \<Rightarrow> Inl e
                 | Inr n \<Rightarrow> Inr (if b then Suc n else n)))"

definition dirs4 :: "coord list" where
  "dirs4 = [(1, 0), (-1, 0), (0, 1), (0, -1)]"

section \<open>Dead-end maintainer\<close>

text \<open>
  \<^verbatim>\<open>recomputeAllDeadEnds\<close>: the test of the inner \<^verbatim>\<open>forEach\<close>,
  \<^verbatim>\<open>inBounds(nx, ny) && state.maze[ny][nx].type === "path"\<close>. It does not look at
  \<^verbatim>\<open>filled\<close>.
\<close>

definition isPathNbr :: "state \<Rightarrow> int \<Rightarrow> int \<Rightarrow> coord \<Rightarrow> error + bool" where
  "isPathNbr s x y d =
     (let nx = x + fst d; ny = y + snd d in
      if inBounds s nx ny
      then (case getCell (maze s) nx ny of
              Inl e \<Rightarrow> Inl e
            | Inr c \<Rightarrow> Inr (ctype c = Path))
      else Inr False)"

text \<open>The body of the two nested loops of \<^verbatim>\<open>recomputeAllDeadEnds\<close> at \<open>(x, y)\<close>.\<close>

definition recomputeAt :: "state \<Rightarrow> coord \<Rightarrow> error + state" where
  "recomputeAt s p =
     (let x = fst p; y = snd p in
      case getCell (maze s) x y of
        Inl e \<Rightarrow> Inl e
      | Inr c \<Rightarrow>
          if ctype c = Path then
            (case countE (isPathNbr s x y) dirs4 of
               Inl e \<Rightarrow> Inl e
             | Inr cnt \<Rightarrow>
                 let isStart = (x = fst (start s) \<and> y = snd (start s));
                     isEnd = (x = fst (endp s) \<and> y = snd (endp s))
                 in Inr (s\<lparr>originalPathCount := originalPathCount s + 1,
                           maze := setCell (maze s) x y
                                     (c\<lparr>deadEnd := (cnt = 1 \<and> \<not> isStart \<and> \<not> isEnd)\<rparr>)\<rparr>))
          else Inr (s\<lparr>maze := setCell (maze s) x y (c\<lparr>deadEnd := False\<rparr>)\<rparr>))"

text \<open>The cells in the order of \<^verbatim>\<open>for y < rows\<close>, \<^verbatim>\<open>for x < cols\<close>.\<close>

definition allCoords :: "int \<Rightarrow> int \<Rightarrow> coord list" where
  "allCoords c r = concat (map (\<lambda>y. map (\<lambda>x. (int x, int y)) [0..<nat c]) [0..<nat r])"

definition recomputeAllDeadEnds :: "state \<Rightarrow> error + state" where
  "recomputeAllDeadEnds s =
     foldE recomputeAt (allCoords (cols s) (rows s)) (s\<lparr>originalPathCount := 0\<rparr>)"

text \<open>
  \<^verbatim>\<open>recomputeDeadendsNear(x, y)\<close>: the nine offsets, and for each of them the
  neighbour test \<^verbatim>\<open>inBounds(ax, ay) && type === "path" && !filled\<close>.
\<close>

definition nearOffsets :: "coord list" where
  "nearOffsets = [(0, 0), (1, 0), (-1, 0), (0, 1), (0, -1), (2, 0), (-2, 0), (0, 2), (0, -2)]"

definition isOpenNbr :: "state \<Rightarrow> int \<Rightarrow> int \<Rightarrow> coord \<Rightarrow> error + bool" where
  "isOpenNbr s x y d =
     (let ax = x + fst d; ay = y + snd d in
      if inBounds s ax ay
      then (case getCell (maze s) ax ay of
              Inl e \<Rightarrow> Inl e
            | Inr c \<Rightarrow> Inr (ctype c = Path \<and> \<not> filled c))
      else Inr False)"

definition recomputeNearAt :: "int \<Rightarrow> int \<Rightarrow> state \<Rightarrow> coord \<Rightarrow> error + state" where
  "recomputeNearAt x y s d =
     (let nx = x + fst d; ny = y + snd d in
      if \<not> inBounds s nx ny then Inr s
      else case getCell (maze s) nx ny of
        Inl e \<Rightarrow> Inl e
      | Inr c \<Rightarrow>
          if ctype c \<noteq> Path \<or> filled c
          then Inr (s\<lparr>maze := setCell (maze s) nx ny (c\<lparr>deadEnd := False\<rparr>)\<rparr>)
          else (case countE (isOpenNbr s nx ny) dirs4 of
                  Inl e \<Rightarrow> Inl e
                | Inr cnt \<Rightarrow>
                    let isStart = (nx = fst (start s) \<and> ny = snd (start s));
                        isEnd = (nx = fst (endp s) \<and> ny = snd (endp s))
                    in Inr (s\<lparr>maze := setCell (maze s) nx ny
                                        (c\<lparr>deadEnd := (cnt = 1 \<and> \<not> isStart \<and> \<not> isEnd)\<rparr>)\<rparr>)))"

definition recomputeDeadendsNear :: "int \<Rightarrow> int \<Rightarrow> state \<Rightarrow> error + state" where
  "recomputeDeadendsNear x y s = foldE (recomputeNearAt x y) nearOffsets s"


section \<open>Maze generator\<close>

text \<open>
  \<^verbatim>\<open>Math.random()\<close> is an external source. Every call of it in \<^verbatim>\<open>generateMazeIterative\<close>
  is used once, either as \<^verbatim>\<open>Math.floor(Math.random() * n)\<close>, an index below \<open>n\<close>, or as
  \<^verbatim>\<open>Math.random() < p\<close>, a Boolean. The source is modelled as a stream of draws, the
  \<open>k\<close>-th call reading \<open>rnd k\<close>: the index is \<open>rnd k mod n\<close> and the Boolean is
  \<open>rnd k mod 100 < 100 * p\<close>, so that every outcome of every call is the image of some
  stream.
\<close>

type_synonym rng = "nat \<Rightarrow> nat"

text \<open>The value of the difficulty selector, \<^verbatim>\<open>diffSel.value\<close>; \<open>Other\<close> is any string that
  is not a key of the preset tables.\<close>

datatype difficulty = Easy | Normal | Hard | Cruel | Other

text \<open>\<^verbatim>\<open>preset.shuffle\<close> and \<^verbatim>\<open>preset.extra\<close>, in hundredths.\<close>

fun shufflePct :: "difficulty \<Rightarrow> nat" where
  "shufflePct Easy = 25"
| "shufflePct Normal = 45"
| "shufflePct Hard = 65"
| "shufflePct Cruel = 85"
| "shufflePct Other = 45"

fun extraPct :: "difficulty \<Rightarrow> int" where
  "extraPct Easy = 2"
| "extraPct Normal = 4"
| "extraPct Hard = 6"
| "extraPct Cruel = 8"
| "extraPct Other = 4"

text \<open>The destructuring swap \<^verbatim>\<open>[a[i], a[j]] = [a[j], a[i]]\<close>.\<close>

definition swapAt :: "'a list \<Rightarrow> nat \<Rightarrow> nat \<Rightarrow> 'a list" where
  "swapAt xs i j = (xs[i := xs ! j])[j := xs ! i]"

text \<open>The shuffle of the four two-step directions, \<^verbatim>\<open>for (i = 3; i > 0; i--)\<close>, which
  draws three times.\<close>

definition shuffledDirs :: "rng \<Rightarrow> nat \<Rightarrow> coord list" where
  "shuffledDirs rnd k =
     (let d0 = [(2, 0), (-2, 0), (0, 2), (0, -2)];
          d1 = swapAt d0 3 (rnd k mod 4);
          d2 = swapAt d1 2 (rnd (k + 1) mod 3);
          d3 = swapAt d2 1 (rnd (k + 2) mod 2)
      in d3)"

text \<open>
  The \<^verbatim>\<open>for (const [dx, dy] of dirs)\<close> loop with its \<^verbatim>\<open>break\<close>: the first direction whose
  target room is inside the border and still a wall is carved, together with the cell
  between. The result is the new grid and the room pushed, or \<open>None\<close> when nothing was
  carved.
\<close>

fun tryCarve :: "int \<Rightarrow> int \<Rightarrow> cell list list \<Rightarrow> int \<Rightarrow> int \<Rightarrow> coord list \<Rightarrow>
    error + (cell list list \<times> coord) option" where
  "tryCarve C R m cx cy [] = Inr None"
| "tryCarve C R m cx cy (d # ds) =
     (let dx = fst d; dy = snd d; nx = cx + dx; ny = cy + dy in
      if nx > 0 \<and> nx < C - 1 \<and> ny > 0 \<and> ny < R - 1 then
        (case getCell m nx ny of
           Inl e \<Rightarrow> Inl e
         | Inr c \<Rightarrow>
             if ctype c = Wall then
               (case getCell m (cx + dx div 2) (cy + dy div 2) of
                  Inl e \<Rightarrow> Inl e
                | Inr mid \<Rightarrow>
                    let m1 = setCell m (cx + dx div 2) (cy + dy div 2) (mid\<lparr>ctype := Path\<rparr>) in
                    (case getCell m1 nx ny of
                       Inl e \<Rightarrow> Inl e
                     | Inr c' \<Rightarrow> Inr (Some (setCell m1 nx ny (c'\<lparr>ctype := Path\<rparr>), (nx, ny)))))
             else tryCarve C R m cx cy ds)
      else tryCarve C R m cx cy ds)"

text \<open>The wall cells of a grid, by array index: the carving loop's variant.\<close>

definition walls :: "cell list list \<Rightarrow> (nat \<times> nat) set" where
  "walls m = {(x, y). y < length m \<and> x < length (m ! y) \<and> ctype (m ! y ! x) = Wall}"

lemma finite_walls: "finite (walls m)"
proof -
  have "walls m \<subseteq> (\<Union>y \<in> {..<length m}. (\<lambda>x. (x, y)) ` {..<length (m ! y)})"
    by (auto simp: walls_def)
  moreover have "finite (\<Union>y \<in> {..<length m}. (\<lambda>x. (x, y)) ` {..<length (m ! y)})"
    by simp
  ultimately show ?thesis by (rule finite_subset)
qed

lemma walls_setCell:
  assumes "getCell m x y = Inr c"
  shows "walls (setCell m x y (c'\<lparr>ctype := Path\<rparr>)) = walls m - {(nat x, nat y)}"
proof -
  have a: "nat y < length m" "nat x < length (m ! nat y)"
    using assms by (auto simp: getCell_def split: if_splits)
  show ?thesis
    using a by (auto simp: walls_def setCell_def nth_list_update split: if_splits)
qed

lemma tryCarve_walls:
  "tryCarve C R m cx cy ds = Inr (Some (m', n)) \<Longrightarrow> card (walls m') < card (walls m)"
proof (induction ds)
  case Nil
  then show ?case by simp
next
  case (Cons d ds)
  let ?nx = "cx + fst d" and ?ny = "cy + snd d"
  let ?mx = "cx + fst d div 2" and ?my = "cy + snd d div 2"
  show ?case
  proof (cases "?nx > 0 \<and> ?nx < C - 1 \<and> ?ny > 0 \<and> ?ny < R - 1 \<and>
                (\<exists>c. getCell m ?nx ?ny = Inr c \<and> ctype c = Wall)")
    case False
    then have "tryCarve C R m cx cy (d # ds) = tryCarve C R m cx cy ds \<or>
               (\<exists>e. tryCarve C R m cx cy (d # ds) = Inl e)"
      by (auto simp: Let_def split: sum.splits)
    with Cons show ?thesis by auto
  next
    case True
    then obtain c where c: "getCell m ?nx ?ny = Inr c" "ctype c = Wall" by blast
    from Cons.prems True c obtain mid c' where
      mid: "getCell m ?mx ?my = Inr mid" and
      c': "getCell (setCell m ?mx ?my (mid\<lparr>ctype := Path\<rparr>)) ?nx ?ny = Inr c'" and
      m': "m' = setCell (setCell m ?mx ?my (mid\<lparr>ctype := Path\<rparr>)) ?nx ?ny (c'\<lparr>ctype := Path\<rparr>)"
      by (auto simp: Let_def split: sum.splits)
    have "walls m' = walls m - {(nat ?mx, nat ?my)} - {(nat ?nx, nat ?ny)}"
      unfolding m' by (simp only: walls_setCell[OF c'] walls_setCell[OF mid])
    moreover have "(nat ?nx, nat ?ny) \<in> walls m"
      using c by (auto simp: walls_def getCell_def split: if_splits)
    ultimately have "walls m' \<subset> walls m" by auto
    then show ?thesis by (simp add: finite_walls psubset_card_mono)
  qed
qed

text \<open>
  The carving loop \<^verbatim>\<open>while (stack.length)\<close>. The stack is a list whose head is the top
  (\<^verbatim>\<open>stack[stack.length - 1]\<close>). Every round draws three times for the shuffle; the
  result is the carved grid and the number of draws made so far.
\<close>

function carveLoop :: "int \<Rightarrow> int \<Rightarrow> rng \<Rightarrow> nat \<Rightarrow> cell list list \<Rightarrow> coord list \<Rightarrow>
    error + (cell list list \<times> nat)" where
  "carveLoop C R rnd k m stack =
     (case stack of
        [] \<Rightarrow> Inr (m, k)
      | cur # rest \<Rightarrow>
          (case tryCarve C R m (fst cur) (snd cur) (shuffledDirs rnd k) of
             Inl e \<Rightarrow> Inl e
           | Inr None \<Rightarrow> carveLoop C R rnd (k + 3) m rest
           | Inr (Some (m', n)) \<Rightarrow> carveLoop C R rnd (k + 3) m' (n # stack)))"
  by pat_completeness auto
termination
proof (relation "measure (\<lambda>(C, R, rnd, k, m, stack). 2 * card (walls m) + length stack)")
  show "wf (measure (\<lambda>(C, R, rnd, k, m, stack). 2 * card (walls m) + length stack))"
    by simp
next
  fix C R :: int and rnd :: rng and k :: nat and m :: "cell list list"
    and stack rest :: "coord list" and cur :: coord
    and x2 :: "(cell list list \<times> coord) option"
  assume "stack = cur # rest"
  then show "((C, R, rnd, k + 3, m, rest), (C, R, rnd, k, m, stack))
      \<in> measure (\<lambda>(C, R, rnd, k, m, stack). 2 * card (walls m) + length stack)"
    by simp
next
  fix C R :: int and rnd :: rng and k :: nat and m m' :: "cell list list"
    and stack rest :: "coord list" and cur n :: coord
    and x2 :: "(cell list list \<times> coord) option" and x2a :: "cell list list \<times> coord"
  assume "stack = cur # rest"
    and "tryCarve C R m (fst cur) (snd cur) (shuffledDirs rnd k) = Inr x2"
    and "x2 = Some x2a" and "(m', n) = x2a"
  then have "card (walls m') < card (walls m)"
    using tryCarve_walls[of C R m "fst cur" "snd cur" "shuffledDirs rnd k" m' n] by simp
  then show "((C, R, rnd, k + 3, m', n # stack), (C, R, rnd, k, m, stack))
      \<in> measure (\<lambda>(C, R, rnd, k, m, stack). 2 * card (walls m) + length stack)"
    using \<open>stack = cur # rest\<close> by simp
qed

declare carveLoop.simps [simp del]


text \<open>
  The extra connections: \<^verbatim>\<open>extra\<close> rounds, each drawing \<^verbatim>\<open>rx\<close>, \<^verbatim>\<open>ry\<close> and the
  Bernoulli test in this order. For \<open>C, R \<ge> 3\<close>, the only sizes that reach this loop,
  \<open>C - 2\<close> and \<open>R - 2\<close> are positive.
\<close>

fun injectExtras :: "nat \<Rightarrow> int \<Rightarrow> int \<Rightarrow> nat \<Rightarrow> rng \<Rightarrow> nat \<Rightarrow> cell list list \<Rightarrow>
    error + cell list list" where
  "injectExtras 0 C R pct rnd k m = Inr m"
| "injectExtras (Suc i) C R pct rnd k m =
     (let rx = 1 + int (rnd k mod nat (C - 2));
          ry = 1 + int (rnd (k + 1) mod nat (R - 2))
      in if rnd (k + 2) mod 100 < pct
         then (case getCell m rx ry of
                 Inl e \<Rightarrow> Inl e
               | Inr c \<Rightarrow> injectExtras i C R pct rnd (k + 3) (setCell m rx ry (c\<lparr>ctype := Path\<rparr>)))
         else injectExtras i C R pct rnd (k + 3) m)"

text \<open>\<^verbatim>\<open>m[y][x].type = "path"\<close>.\<close>

definition setPath :: "cell list list \<Rightarrow> int \<Rightarrow> int \<Rightarrow> error + cell list list" where
  "setPath m x y =
     (case getCell m x y of Inl e \<Rightarrow> Inl e | Inr c \<Rightarrow> Inr (setCell m x y (c\<lparr>ctype := Path\<rparr>)))"

text \<open>
  \<^verbatim>\<open>currentPathCount\<close> and \<^verbatim>\<open>updateHUD\<close>: the HUD only reads the grid (and writes to
  the page), so the state is handed back unchanged unless a read throws.
\<close>

definition currentPathCount :: "state \<Rightarrow> error + nat" where
  "currentPathCount s =
     countE (\<lambda>p. case getCell (maze s) (fst p) (snd p) of
                    Inl e \<Rightarrow> Inl e
                  | Inr c \<Rightarrow> Inr (ctype c = Path \<and> \<not> filled c))
            (allCoords (cols s) (rows s))"

definition updateHUD :: "state \<Rightarrow> error + state" where
  "updateHUD s = (case currentPathCount s of Inl e \<Rightarrow> Inl e | Inr n \<Rightarrow> Inr s)"

text \<open>
  \<^verbatim>\<open>generateMazeIterative\<close>, reading \<^verbatim>\<open>state.cols\<close>, \<^verbatim>\<open>state.rows\<close> and the difficulty
  selector; \<open>oddSize\<close> is \<^verbatim>\<open>if (n % 2 === 0) n++\<close>. \<^verbatim>\<open>Math.floor(cols * rows * preset.extra)\<close> is computed in whole numbers:
  \<open>cols * rows\<close> is odd, so the exact product is never within a fiftieth below a whole
  number and the rounding of the floating-point product cannot change its floor.
\<close>

definition oddSize :: "int \<Rightarrow> int" where
  "oddSize n = (if n mod 2 = 0 then n + 1 else n)"

definition generateMazeIterative :: "difficulty \<Rightarrow> rng \<Rightarrow> state \<Rightarrow> error + state" where
  "generateMazeIterative diff rnd s =
     (let C = oddSize (cols s);
          R = oddSize (rows s);
          maze0 = replicate (nat R) (replicate (nat C) (MazeCell Wall))
      in case setPath maze0 1 1 of
        Inl e \<Rightarrow> Inl e
      | Inr maze1 \<Rightarrow>
      (case carveLoop C R rnd 0 maze1 [(1, 1)] of
        Inl e \<Rightarrow> Inl e
      | Inr (maze2, k) \<Rightarrow>
      (case injectExtras (nat ((C * R * extraPct diff) div 100)) C R (shufflePct diff) rnd k maze2 of
        Inl e \<Rightarrow> Inl e
      | Inr maze3 \<Rightarrow>
      (case setPath maze3 1 1 of
        Inl e \<Rightarrow> Inl e
      | Inr maze4 \<Rightarrow>
      (case setPath maze4 (C - 2) (R - 2) of
        Inl e \<Rightarrow> Inl e
      | Inr maze5 \<Rightarrow>
      (case recomputeAllDeadEnds
              (s\<lparr>cols := C, rows := R, start := (1, 1), endp := (C - 2, R - 2), maze := maze5\<rparr>) of
        Inl e \<Rightarrow> Inl e
      | Inr s1 \<Rightarrow>
          updateHUD (s1\<lparr>player := (1, 1), visitedCount := 1, undoStack := [], score := 0\<rparr>)))))))"

section \<open>Traversal state machine\<close>

text \<open>
  What a move reads from outside the state: the reverse-mode checkbox
  \<^verbatim>\<open>revChk.checked\<close>, the difficulty selector, the whole seconds elapsed on the clock
  when \<^verbatim>\<open>checkCompletion\<close> runs, and the random source of a regeneration.
\<close>

record env =
  revChecked :: bool
  diffValue :: difficulty
  elapsedSec :: int
  random :: rng

text \<open>\<^verbatim>\<open>Math.round(10 * preset)\<close> for the dead-end bonus.\<close>

fun deadBonus :: "difficulty \<Rightarrow> int" where
  "deadBonus Easy = 9"
| "deadBonus Normal = 10"
| "deadBonus Hard = 12"
| "deadBonus Cruel = 14"
| "deadBonus Other = 10"

text \<open>
  \<^verbatim>\<open>checkCompletion\<close>. The regeneration is the callback handed to
  \<^verbatim>\<open>withViewTransition\<close>, modelled as run at once (the branch \<^verbatim>\<open>else fn()\<close>).
\<close>

definition checkCompletion :: "env \<Rightarrow> state \<Rightarrow> error + state" where
  "checkCompletion ev s =
     (if fst (player s) = fst (endp s) \<and> snd (player s) = snd (endp s) then
        (let finishBonus = max 0 (100 - elapsedSec ev * 1);
             sc = score s + finishBonus;
             s1 = s\<lparr>score := sc, highscore := (if sc > highscore s then sc else highscore s)\<rparr>;
             newW = min 51 (cols s + 2);
             newH = min 51 (rows s + 2)
         in generateMazeIterative (diffValue ev) (random ev) (s1\<lparr>cols := newW, rows := newH\<rparr>))
      else Inr s)"

text \<open>The fill of the departed cell and the local recompute around it, shared by
  \<^verbatim>\<open>attemptMove\<close> (\<open>b = True\<close>) and \<^verbatim>\<open>undo\<close> (\<open>b = False\<close>).\<close>

definition setFilled :: "bool \<Rightarrow> coord option \<Rightarrow> state \<Rightarrow> error + state" where
  "setFilled b fl s =
     (case fl of
        None \<Rightarrow> Inr s
      | Some f \<Rightarrow>
          (case getCell (maze s) (fst f) (snd f) of
             Inl e \<Rightarrow> Inl e
           | Inr c \<Rightarrow>
               recomputeDeadendsNear (fst f) (snd f)
                 (s\<lparr>maze := setCell (maze s) (fst f) (snd f) (c\<lparr>filled := b\<rparr>)\<rparr>)))"

text \<open>The body of \<^verbatim>\<open>attemptMove\<close> between its guard and the HUD update, for the
  destination \<open>(nx, ny)\<close>.\<close>

definition applyMove :: "env \<Rightarrow> int \<Rightarrow> int \<Rightarrow> state \<Rightarrow> error + state" where
  "applyMove ev nx ny s =
     (let pX = fst (player s); pY = snd (player s); willFill = \<not> revChecked ev in
      case (if willFill
            then (case getCell (maze s) pX pY of
                    Inl e \<Rightarrow> Inl e
                  | Inr c \<Rightarrow> Inr (if ctype c = Path \<and> \<not> filled c then Some (pX, pY) else None))
            else Inr None) of
        Inl e \<Rightarrow> Inl e
      | Inr fl \<Rightarrow>
          let s1 = s\<lparr>undoStack := \<lparr>prevX = pX, prevY = pY, snapFilled = fl\<rparr> # undoStack s,
                     player := (nx, ny),
                     visitedCount := visitedCount s + 1,
                     score := score s + 1\<rparr>
          in case getCell (maze s1) nx ny of
            Inl e \<Rightarrow> Inl e
          | Inr c \<Rightarrow>
              let s2 = (if deadEnd c \<and> \<not> (nx = fst (start s1) \<and> ny = snd (start s1))
                             \<and> \<not> (nx = fst (endp s1) \<and> ny = snd (endp s1))
                        then s1\<lparr>score := score s1 + deadBonus (diffValue ev),
                                maze := setCell (maze s1) nx ny (c\<lparr>deadEnd := False\<rparr>)\<rparr>
                        else s1)
              in setFilled True fl s2)"

definition attemptMove :: "env \<Rightarrow> int \<Rightarrow> int \<Rightarrow> state \<Rightarrow> error + state" where
  "attemptMove ev dx dy s =
     (let nx = fst (player s) + dx; ny = snd (player s) + dy in
      case isWalkable s nx ny of
        Inl e \<Rightarrow> Inl e
      | Inr False \<Rightarrow> Inr s
      | Inr True \<Rightarrow>
          (case applyMove ev nx ny s of
             Inl e \<Rightarrow> Inl e
           | Inr s3 \<Rightarrow>
               (case updateHUD s3 of
                  Inl e \<Rightarrow> Inl e
                | Inr s4 \<Rightarrow> checkCompletion ev s4)))"

text \<open>\<^verbatim>\<open>undo\<close>. The head of \<open>undoStack\<close> is the record pushed last.\<close>

definition undo :: "state \<Rightarrow> error + state" where
  "undo s =
     (case undoStack s of
        [] \<Rightarrow> Inr s
      | snap # rest \<Rightarrow>
          (case setFilled False (snapFilled snap) (s\<lparr>undoStack := rest\<rparr>) of
             Inl e \<Rightarrow> Inl e
           | Inr s1 \<Rightarrow> updateHUD (s1\<lparr>player := (prevX snap, prevY snap)\<rparr>)))"


section \<open>Search services\<close>

text \<open>
  The two workers receive a message and post at most one. A message field that is
  absent (\<^verbatim>\<open>undefined\<close>) is \<open>None\<close>. The walkability grid is an array of rows of
  numbers, read as \<^verbatim>\<open>grid[ny][nx] === 1\<close>: a missing grid or a missing row throws a
  \<^verbatim>\<open>TypeError\<close>, a missing entry of a row is \<^verbatim>\<open>undefined\<close> and so not \<open>1\<close>.
\<close>

datatype response = Ignored | Result "coord list option"

definition gridIsOne :: "int list list option \<Rightarrow> coord \<Rightarrow> error + bool" where
  "gridIsOne g p =
     (case g of
        None \<Rightarrow> Inl TypeError
      | Some grid \<Rightarrow>
          (let nx = fst p; ny = snd p in
           if 0 \<le> ny \<and> ny < int (length grid)
           then Inr (0 \<le> nx \<and> nx < int (length (grid ! nat ny)) \<and> grid ! nat ny ! nat nx = 1)
           else Inl TypeError))"

text \<open>\<^verbatim>\<open>Array.prototype.filter\<close> with a test that may throw.\<close>

fun filterE :: "('a \<Rightarrow> error + bool) \<Rightarrow> 'a list \<Rightarrow> error + 'a list" where
  "filterE p [] = Inr []"
| "filterE p (a # as) =
     (case p a of
        Inl e \<Rightarrow> Inl e
      | Inr b \<Rightarrow> (case filterE p as of
                   Inl e \<Rightarrow> Inl e
                 | Inr bs \<Rightarrow> Inr (if b then a # bs else bs)))"

text \<open>\<^verbatim>\<open>neighbors(x, y)\<close>, the same closure in both workers: the array \<^verbatim>\<open>res\<close> of
  up to four candidates, then the filter.\<close>

definition candidates :: "int \<Rightarrow> int \<Rightarrow> coord \<Rightarrow> coord list" where
  "candidates c r p =
     (let x = fst p; y = snd p in
      (if x > 0 then [(x - 1, y)] else []) @
      (if x < c - 1 then [(x + 1, y)] else []) @
      (if y > 0 then [(x, y - 1)] else []) @
      (if y < r - 1 then [(x, y + 1)] else []))"

definition neighbors :: "int list list option \<Rightarrow> int \<Rightarrow> int \<Rightarrow> coord \<Rightarrow> error + coord list" where
  "neighbors g c r p = filterE (gridIsOne g) (candidates c r p)"

subsection \<open>Nearest-target search (\<^verbatim>\<open>bfs-worker.js\<close>)\<close>

text \<open>
  The string keys \<^verbatim>\<open>`${x},${y}`\<close> of the visited set and of the parent map are modelled
  by the coordinate pairs themselves: on integers the key is injective and
  \<^verbatim>\<open>cur.split(',').map(Number)\<close> gives the pair back. The parent map holds \<^verbatim>\<open>null\<close> for
  the start; \<^verbatim>\<open>while (cur)\<close> stops on \<^verbatim>\<open>null\<close> as on a missing key, so the start simply
  has no entry here.
\<close>

record bfs_request =
  b_cmd :: string
  b_grid :: "int list list option"
  b_cols :: int
  b_rows :: int
  b_start :: "coord option"
  b_deadEnds :: "coord list option"

text \<open>
  The path reconstruction \<^verbatim>\<open>while (cur) { path.push(...); cur = parent.get(cur) }\<close>
  followed by \<^verbatim>\<open>path.reverse()\<close>: the accumulator is the path in its final order. The
  loop follows the parent map and need not end on an arbitrary map, so the result is an
  option, \<open>None\<close> for a loop that does not return.
\<close>

partial_function (option) reconstruct :: "(coord \<rightharpoonup> coord) \<Rightarrow> coord \<Rightarrow> coord list \<Rightarrow> coord list option" where
  "reconstruct parent cur path =
     (case parent cur of
        None \<Rightarrow> Some (cur # path)
      | Some p \<Rightarrow> reconstruct parent p (cur # path))"

declare reconstruct.simps [code]

text \<open>The \<^verbatim>\<open>for (const [nx, ny] of neighbors(cx, cy))\<close> loop.\<close>

fun visitAll :: "coord \<Rightarrow> coord list \<Rightarrow> coord set \<times> (coord \<rightharpoonup> coord) \<times> coord list \<Rightarrow>
    coord set \<times> (coord \<rightharpoonup> coord) \<times> coord list" where
  "visitAll k [] st = st"
| "visitAll k (n # ns) (visited, parent, q) =
     (if n \<notin> visited
      then visitAll k ns (insert n visited, parent(n \<mapsto> k), q @ [n])
      else visitAll k ns (visited, parent, q))"

text \<open>
  The main loop \<^verbatim>\<open>while (q.length)\<close>. The source gives it no bound; the first argument
  is a budget of dequeues (\<^verbatim>\<open>q.shift()\<close>), one spent per round, and \<open>None\<close> is a run
  that needs more than the budget.
\<close>

fun bfsLoop :: "nat \<Rightarrow> int list list option \<Rightarrow> int \<Rightarrow> int \<Rightarrow> coord set \<Rightarrow>
    coord list \<Rightarrow> coord set \<Rightarrow> (coord \<rightharpoonup> coord) \<Rightarrow> (error + coord list option) option" where
  "bfsLoop n g c r deadSet [] visited parent = Some (Inr None)"
| "bfsLoop 0 g c r deadSet (cur # q) visited parent = None"
| "bfsLoop (Suc n) g c r deadSet (cur # q) visited parent =
     (if cur \<in> deadSet
      then (case reconstruct parent cur [] of
              None \<Rightarrow> None
            | Some path \<Rightarrow> Some (Inr (Some path)))
      else (case neighbors g c r cur of
              Inl e \<Rightarrow> Some (Inl e)
            | Inr ns \<Rightarrow>
                (case visitAll cur ns (visited, parent, q) of
                   (visited', parent', q') \<Rightarrow> bfsLoop n g c r deadSet q' visited' parent')))"

definition bfsWorker :: "nat \<Rightarrow> bfs_request \<Rightarrow> (error + response) option" where
  "bfsWorker fuel req =
     (if b_cmd req \<noteq> ''bfs-deadend'' then Some (Inr Ignored)
      else
        let deadSet = set (case b_deadEnds req of None \<Rightarrow> [] | Some ds \<Rightarrow> ds) in
        if b_grid req = None \<or> b_start req = None then Some (Inr (Result None))
        else
          let st = the (b_start req) in
          (case bfsLoop fuel (b_grid req) (b_cols req) (b_rows req) deadSet [st] {st} Map.empty of
             None \<Rightarrow> None
           | Some (Inl e) \<Rightarrow> Some (Inl e)
           | Some (Inr path) \<Rightarrow> Some (Inr (Result path))))"

subsection \<open>Shortest path to the goal (\<^verbatim>\<open>astar-worker.js\<close>)\<close>

text \<open>A frontier entry \<^verbatim>\<open>{ x, y, g, f, prev }\<close>; \<^verbatim>\<open>prev\<close> is the entry it was reached
  from, or \<^verbatim>\<open>null\<close>.\<close>

datatype node = Node (nodeX: int) (nodeY: int) (nodeG: int) (nodeF: int) (nodePrev: "node option")

record astar_request =
  a_cmd :: string
  a_grid :: "int list list option"
  a_cols :: int
  a_rows :: int
  a_start :: "coord option"
  a_end :: "coord option"

definition h :: "coord \<Rightarrow> coord \<Rightarrow> int" where
  "h a b = \<bar>fst a - fst b\<bar> + \<bar>snd a - snd b\<bar>"

text \<open>The binary heap \<^verbatim>\<open>PQ\<close> on the array \<^verbatim>\<open>this.a\<close>: \<^verbatim>\<open>push\<close> with its sift-up loop,
  \<^verbatim>\<open>pop\<close> with its sift-down loop.\<close>

function siftUp :: "node list \<Rightarrow> nat \<Rightarrow> node list" where
  "siftUp a i =
     (if i > 0 then
        (let p = (i - 1) div 2 in
         if nodeF (a ! i) < nodeF (a ! p) then siftUp (swapAt a i p) p else a)
      else a)"
  by pat_completeness auto
termination
  by (relation "measure (\<lambda>(a, i). i)") auto

declare siftUp.simps [simp del]

definition pqPush :: "node list \<Rightarrow> node \<Rightarrow> node list" where
  "pqPush a item = siftUp (a @ [item]) (length a)"

definition minChild :: "node list \<Rightarrow> nat \<Rightarrow> nat" where
  "minChild a i =
     (let l = i * 2 + 1; r = l + 1;
          m = (if l < length a \<and> nodeF (a ! l) < nodeF (a ! i) then l else i)
      in if r < length a \<and> nodeF (a ! r) < nodeF (a ! m) then r else m)"

lemma minChild_bounds: "minChild a i \<noteq> i \<Longrightarrow> i < minChild a i \<and> minChild a i < length a"
  by (auto simp: minChild_def Let_def split: if_splits)

lemma length_swapAt [simp]: "length (swapAt xs i j) = length xs"
  by (simp add: swapAt_def)

function siftDown :: "node list \<Rightarrow> nat \<Rightarrow> node list" where
  "siftDown a i =
     (let m = minChild a i in
      if m = i then a else siftDown (swapAt a i m) m)"
  by pat_completeness auto
termination
proof (relation "measure (\<lambda>(a, i). length a - i)")
  show "wf (measure (\<lambda>(a, i). length a - i))" by simp
next
  fix a :: "node list" and i m :: nat
  assume "m = minChild a i" and "m \<noteq> i"
  then have "i < m \<and> m < length a" using minChild_bounds[of a i] by simp
  then show "((swapAt a i m, m), (a, i)) \<in> measure (\<lambda>(a, i). length a - i)"
    by (simp add: diff_less_mono2)
qed

declare siftDown.simps [simp del]

definition pqPop :: "node list \<Rightarrow> (node \<times> node list) option" where
  "pqPop a =
     (if length a = 0 then None
      else
        let r = a ! 0; lst = last a; a' = butlast a in
        if length a' \<noteq> 0 then Some (r, siftDown (a'[0 := lst]) 0) else Some (r, a'))"

text \<open>The path of an entry, start first: the \<^verbatim>\<open>while (node)\<close> loop along \<^verbatim>\<open>prev\<close> and the
  \<^verbatim>\<open>reverse()\<close>.\<close>

fun nodePath :: "node \<Rightarrow> coord list" where
  "nodePath (Node x y g f prev) =
     (case prev of None \<Rightarrow> [] | Some p \<Rightarrow> nodePath p) @ [(x, y)]"

text \<open>The \<^verbatim>\<open>for (const nb of neighbors(cur.x, cur.y))\<close> loop.\<close>

fun relax :: "coord \<Rightarrow> node \<Rightarrow> coord list \<Rightarrow> (coord \<rightharpoonup> node) \<times> node list \<Rightarrow>
    (coord \<rightharpoonup> node) \<times> node list" where
  "relax e cur [] st = st"
| "relax e cur (nb # nbs) (opn, pq) =
     (let ng = nodeG cur + 1; nf = ng + h nb e in
      if (case opn nb of None \<Rightarrow> True | Some existing \<Rightarrow> ng < nodeG existing)
      then (let nd = Node (fst nb) (snd nb) ng nf (Some cur)
            in relax e cur nbs (opn(nb \<mapsto> nd), pqPush pq nd))
      else relax e cur nbs (opn, pq))"

text \<open>
  The main loop \<^verbatim>\<open>while (pq.size() && steps++ < MAX_STEPS)\<close>. The first argument is
  \<^verbatim>\<open>MAX_STEPS - steps\<close>, the rounds the budget still allows. Beside the path the loop
  returns how many entries it has popped and expanded.
\<close>

fun astarLoop :: "nat \<Rightarrow> int list list option \<Rightarrow> int \<Rightarrow> int \<Rightarrow> coord \<Rightarrow>
    (coord \<rightharpoonup> node) \<Rightarrow> node list \<Rightarrow> error + (coord list option \<times> nat)" where
  "astarLoop 0 g c r e opn pq = Inr (None, 0)"
| "astarLoop (Suc n) g c r e opn pq =
     (case pqPop pq of
        None \<Rightarrow> Inr (None, 0)
      | Some (cur, pq') \<Rightarrow>
          if nodeX cur = fst e \<and> nodeY cur = snd e then Inr (Some (nodePath cur), 1)
          else (case neighbors g c r (nodeX cur, nodeY cur) of
                  Inl err \<Rightarrow> Inl err
                | Inr nbs \<Rightarrow>
                    (case relax e cur nbs (opn, pq') of
                       (opn', pq'') \<Rightarrow>
                         (case astarLoop n g c r e opn' pq'' of
                            Inl err \<Rightarrow> Inl err
                          | Inr (res, k) \<Rightarrow> Inr (res, Suc k)))))"

text \<open>The worker: what it posts, and the number of expansions made.\<close>

definition astarWorker :: "astar_request \<Rightarrow> error + (response \<times> nat)" where
  "astarWorker req =
     (if a_cmd req \<noteq> ''astar'' then Inr (Ignored, 0)
      else case a_start req of
        None \<Rightarrow> Inl TypeError
      | Some st \<Rightarrow>
          (case a_end req of
             None \<Rightarrow> Inl TypeError
           | Some e \<Rightarrow>
               let startNode = Node (fst st) (snd st) 0 (h st e) None;
                   opn = [st \<mapsto> startNode];
                   pq = pqPush [] startNode;
                   MAX_STEPS = a_cols req * a_rows req * 10
               in (case astarLoop (nat MAX_STEPS) (a_grid req) (a_cols req) (a_rows req) e opn pq of
                     Inl err \<Rightarrow> Inl err
                   | Inr (path, k) \<Rightarrow> Inr (Result path, k))))"

section \<open>Well-formed states and the dead-end definition\<close>

text \<open>
  A state is well formed when the grid has \<open>rows\<close> rows of \<open>cols\<close> cells each, as every
  grid built by \<^verbatim>\<open>generateMazeIterative\<close> has. On such a state no read inside the
  bounds throws, and \<open>cellAt\<close> is the cell read.
\<close>

definition wf_state :: "state \<Rightarrow> bool" where
  "wf_state s \<longleftrightarrow> int (length (maze s)) = rows s \<and>
     list_all (\<lambda>row. int (length row) = cols s) (maze s)"

text \<open>No cell of the grid is filled: the grids that \<^verbatim>\<open>generateMazeIterative\<close> and
  \<^verbatim>\<open>resetCurrentMaze\<close> hand to \<^verbatim>\<open>recomputeAllDeadEnds\<close>.\<close>

definition noFilled :: "state \<Rightarrow> bool" where
  "noFilled s \<longleftrightarrow> list_all (list_all (\<lambda>c. \<not> filled c)) (maze s)"

definition cellAt :: "state \<Rightarrow> int \<Rightarrow> int \<Rightarrow> cell" where
  "cellAt s x y = maze s ! nat y ! nat x"

definition walkable :: "state \<Rightarrow> int \<Rightarrow> int \<Rightarrow> bool" where
  "walkable s x y \<longleftrightarrow> inBounds s x y \<and> ctype (cellAt s x y) = Path \<and> \<not> filled (cellAt s x y)"

definition isDeadEndSpec :: "state \<Rightarrow> int \<Rightarrow> int \<Rightarrow> bool" where
  "isDeadEndSpec s x y \<longleftrightarrow>
     ctype (cellAt s x y) = Path \<and> \<not> filled (cellAt s x y) \<and>
     length (filter (\<lambda>d. walkable s (x + fst d) (y + snd d)) dirs4) = 1 \<and>
     (x, y) \<noteq> start s \<and> (x, y) \<noteq> endp s"

definition sameFrame :: "state \<Rightarrow> state \<Rightarrow> bool" where
  "sameFrame s s' \<longleftrightarrow>
     cols s' = cols s \<and> rows s' = rows s \<and> start s' = start s \<and> endp s' = endp s \<and>
     (\<forall>x y. inBounds s x y \<longrightarrow>
        ctype (cellAt s' x y) = ctype (cellAt s x y) \<and>
        filled (cellAt s' x y) = filled (cellAt s x y))"

definition flagged :: "state \<Rightarrow> int \<Rightarrow> int \<Rightarrow> bool \<Rightarrow> nat \<Rightarrow> state" where
  "flagged s x y b n =
     s\<lparr>originalPathCount := n,
       maze := setCell (maze s) x y ((cellAt s x y)\<lparr>deadEnd := b\<rparr>)\<rparr>"

definition pathAt :: "state \<Rightarrow> int \<Rightarrow> int \<Rightarrow> bool" where
  "pathAt s x y \<longleftrightarrow> inBounds s x y \<and> ctype (cellAt s x y) = Path"

definition flagAll :: "state \<Rightarrow> int \<Rightarrow> int \<Rightarrow> bool" where
  "flagAll s x y \<longleftrightarrow>
     ctype (cellAt s x y) = Path \<and>
     length (filter (\<lambda>d. pathAt s (x + fst d) (y + snd d)) dirs4) = 1 \<and>
     (x, y) \<noteq> start s \<and> (x, y) \<noteq> endp s"

definition nearCells :: "int \<Rightarrow> int \<Rightarrow> coord list" where
  "nearCells x y = map (\<lambda>d. (x + fst d, y + snd d)) nearOffsets"

section \<open>Walks on the walkability grid\<close>

text \<open>
  A request is well formed when its grid has \<open>rows\<close> rows of \<open>cols\<close> entries and the start
  lies inside. On such a request \<open>adj\<close> lists what \<^verbatim>\<open>neighbors\<close> returns, and a walk is a
  non-empty list of coordinates each of which is a neighbour of the one before. The
  invariant \<open>bfsInv\<close> of the breadth-first loop speaks of the queue \<open>q\<close>, the visited set
  \<open>V\<close>, the parent map and a distance \<open>d\<close> from the start.
\<close>

fun isWalk :: "(coord \<Rightarrow> coord list) \<Rightarrow> coord list \<Rightarrow> bool" where
  "isWalk A [] = False"
| "isWalk A [v] = True"
| "isWalk A (u # v # rest) = (v \<in> set (A u) \<and> isWalk A (v # rest))"

definition bfsInv :: "(coord \<Rightarrow> coord list) \<Rightarrow> coord \<Rightarrow> coord set \<Rightarrow> coord set \<Rightarrow> (coord \<Rightarrow> nat) \<Rightarrow>
    coord list \<Rightarrow> coord set \<Rightarrow> (coord \<rightharpoonup> coord) \<Rightarrow> bool" where
  "bfsInv A st T B d q V par \<longleftrightarrow>
     finite B \<and> st \<in> V \<and> d st = 0 \<and> V \<subseteq> B \<and> distinct q \<and> set q \<subseteq> V \<and>
     (\<forall>v. v \<notin> V \<or> v = st \<longrightarrow> par v = None) \<and>
     (\<forall>v\<in>V. v \<noteq> st \<longrightarrow>
        (\<exists>u. par v = Some u \<and> u \<in> V \<and> u \<notin> set q \<and> v \<in> set (A u) \<and> d v = d u + 1)) \<and>
     sorted (map d q) \<and>
     (\<forall>v\<in>V. \<forall>x\<in>set q. d v \<le> d x + 1) \<and>
     (\<forall>u\<in>V. u \<notin> set q \<longrightarrow>
        u \<notin> T \<and> (\<forall>x\<in>set q. d u \<le> d x) \<and> (\<forall>v\<in>set (A u). v \<in> V \<and> d v \<le> d u + 1))"

definition wfGrid :: "int list list \<Rightarrow> int \<Rightarrow> int \<Rightarrow> bool" where
  "wfGrid grid c r \<longleftrightarrow>
     int (length grid) = r \<and> list_all (\<lambda>row. int (length row) = c) grid"

definition inGrid :: "int \<Rightarrow> int \<Rightarrow> coord \<Rightarrow> bool" where
  "inGrid c r p \<longleftrightarrow> 0 \<le> fst p \<and> fst p < c \<and> 0 \<le> snd p \<and> snd p < r"

definition adj :: "int list list \<Rightarrow> int \<Rightarrow> int \<Rightarrow> coord \<Rightarrow> coord list" where
  "adj grid c r p = filter (\<lambda>q. grid ! nat (snd q) ! nat (fst q) = 1) (candidates c r p)"

definition wfBfsRequest :: "bfs_request \<Rightarrow> bool" where
  "wfBfsRequest req \<longleftrightarrow>
     b_cmd req = ''bfs-deadend'' \<and>
     (case b_grid req of
        None \<Rightarrow> False
      | Some grid \<Rightarrow>
          wfGrid grid (b_cols req) (b_rows req) \<and>
          (case b_start req of None \<Rightarrow> False | Some st \<Rightarrow> inGrid (b_cols req) (b_rows req) st))"

definition bfsTargets :: "bfs_request \<Rightarrow> coord set" where
  "bfsTargets req = set (case b_deadEnds req of None \<Rightarrow> [] | Some ds \<Rightarrow> ds)"

definition bfsWalk :: "bfs_request \<Rightarrow> coord list \<Rightarrow> bool" where
  "bfsWalk req w \<longleftrightarrow>
     isWalk (adj (the (b_grid req)) (b_cols req) (b_rows req)) w \<and> hd w = the (b_start req)"

definition wfAstarRequest :: "astar_request \<Rightarrow> bool" where
  "wfAstarRequest req \<longleftrightarrow>
     a_cmd req = ''astar'' \<and>
     (case a_grid req of
        None \<Rightarrow> False
      | Some grid \<Rightarrow>
          wfGrid grid (a_cols req) (a_rows req) \<and>
          (case a_start req of None \<Rightarrow> False | Some st \<Rightarrow> inGrid (a_cols req) (a_rows req) st)) \<and>
     a_end req \<noteq> None"

definition astarWalk :: "astar_request \<Rightarrow> coord list \<Rightarrow> bool" where
  "astarWalk req w \<longleftrightarrow>
     isWalk (adj (the (a_grid req)) (a_cols req) (a_rows req)) w \<and> hd w = the (a_start req)"

definition goodNode :: "(coord \<Rightarrow> coord list) \<Rightarrow> coord \<Rightarrow> coord set \<Rightarrow> node \<Rightarrow> bool" where
  "goodNode A st B nd \<longleftrightarrow>
     isWalk A (nodePath nd) \<and> hd (nodePath nd) = st \<and>
     last (nodePath nd) = (nodeX nd, nodeY nd) \<and> (nodeX nd, nodeY nd) \<in> B"

definition flagsOK :: "state \<Rightarrow> bool" where
  "flagsOK s \<longleftrightarrow> (\<forall>x y. inBounds s x y \<longrightarrow> deadEnd (cellAt s x y) = isDeadEndSpec s x y)"

definition plainGrid :: "int \<Rightarrow> int \<Rightarrow> cell list list \<Rightarrow> bool" where
  "plainGrid C R m \<longleftrightarrow>
     int (length m) = R \<and>
     list_all (\<lambda>row. int (length row) = C \<and> list_all (\<lambda>c. \<not> filled c) row) m"

definition pathClosed :: "(cell list list \<Rightarrow> bool) \<Rightarrow> bool" where
  "pathClosed P \<longleftrightarrow>
     (\<forall>m x y c. P m \<longrightarrow> getCell m x y = Inr c \<longrightarrow> P (setCell m x y (c\<lparr>ctype := Path\<rparr>)))"

definition isPath :: "cell list list \<Rightarrow> int \<Rightarrow> int \<Rightarrow> bool" where
  "isPath m x y \<longleftrightarrow> (case getCell m x y of Inl e \<Rightarrow> False | Inr c \<Rightarrow> ctype c = Path)"

definition gridEq :: "state \<Rightarrow> state \<Rightarrow> bool" where
  "gridEq s s' \<longleftrightarrow>
     cols s' = cols s \<and> rows s' = rows s \<and> maze s' = maze s \<and> start s' = start s \<and>
     endp s' = endp s"

definition fillAt :: "bool \<Rightarrow> int \<Rightarrow> int \<Rightarrow> state \<Rightarrow> state" where
  "fillAt b fx fy s = s\<lparr>maze := setCell (maze s) fx fy ((cellAt s fx fy)\<lparr>filled := b\<rparr>)\<rparr>"

fun okStack :: "state \<Rightarrow> snapshot list \<Rightarrow> bool" where
  "okStack s [] = True"
| "okStack s (snap # rest) =
     (case snapFilled snap of
        None \<Rightarrow> walkable s (prevX snap) (prevY snap) \<and> okStack s rest
      | Some f \<Rightarrow>
          f = (prevX snap, prevY snap) \<and> inBounds s (fst f) (snd f) \<and>
          ctype (cellAt s (fst f) (snd f)) = Path \<and>
          okStack (fillAt False (fst f) (snd f) s) rest)"

definition playInv :: "state \<Rightarrow> bool" where
  "playInv s \<longleftrightarrow>
     wf_state s \<and> flagsOK s \<and> walkable s (fst (player s)) (snd (player s)) \<and>
     okStack s (undoStack s)"

definition moved :: "env \<Rightarrow> int \<Rightarrow> int \<Rightarrow> coord option \<Rightarrow> state \<Rightarrow> state" where
  "moved ev nx ny fl s =
     (let s1 = s\<lparr>undoStack := \<lparr>prevX = fst (player s), prevY = snd (player s), snapFilled = fl\<rparr>
                               # undoStack s,
                 player := (nx, ny),
                 visitedCount := visitedCount s + 1,
                 score := score s + 1\<rparr>
      in if deadEnd (cellAt s nx ny) \<and> (nx, ny) \<noteq> start s \<and> (nx, ny) \<noteq> endp s
         then s1\<lparr>score := score s1 + deadBonus (diffValue ev),
                 maze := setCell (maze s1) nx ny ((cellAt s nx ny)\<lparr>deadEnd := False\<rparr>)\<rparr>
         else s1)"

definition bonusInReverse :: "env \<Rightarrow> int \<Rightarrow> int \<Rightarrow> state \<Rightarrow> bool" where
  "bonusInReverse ev dx dy s \<longleftrightarrow>
     revChecked ev \<and> walkable s (fst (player s) + dx) (snd (player s) + dy) \<and>
     deadEnd (cellAt s (fst (player s) + dx) (snd (player s) + dy))"

inductive played :: "state \<Rightarrow> bool" where
  fresh: "generateMazeIterative diff rnd s0 = Inr s \<Longrightarrow> played s"
| move: "played s \<Longrightarrow> (dx, dy) \<in> set dirs4 \<Longrightarrow> \<not> bonusInReverse ev dx dy s \<Longrightarrow>
         attemptMove ev dx dy s = Inr s' \<Longrightarrow> played s'"
| undone: "played s \<Longrightarrow> undo s = Inr s' \<Longrightarrow> played s'"

text \<open>
  The generator's lattice: the four two-cell steps of \<^verbatim>\<open>dirs\<close>, the cells strictly inside
  the border, and the rooms, that is the interior cells with both coordinates odd.
\<close>

definition twoSteps :: "coord list" where
  "twoSteps = [(2, 0), (-2, 0), (0, 2), (0, -2)]"

definition interior :: "int \<Rightarrow> int \<Rightarrow> coord \<Rightarrow> bool" where
  "interior C R p \<longleftrightarrow> 0 < fst p \<and> fst p < C - 1 \<and> 0 < snd p \<and> snd p < R - 1"

definition room :: "int \<Rightarrow> int \<Rightarrow> coord \<Rightarrow> bool" where
  "room C R p \<longleftrightarrow> fst p mod 2 = 1 \<and> snd p mod 2 = 1 \<and> interior C R p"

text \<open>
  The four-neighbours of a cell whose kind is \<open>Path\<close>, whatever their \<^verbatim>\<open>filled\<close> flag,
  and reachability along them.
\<close>

definition pathNbrs :: "cell list list \<Rightarrow> coord \<Rightarrow> coord list" where
  "pathNbrs m p =
     filter (\<lambda>q. isPath m (fst q) (snd q)) (map (\<lambda>d. (fst p + fst d, snd p + snd d)) dirs4)"

definition reach :: "cell list list \<Rightarrow> coord \<Rightarrow> coord \<Rightarrow> bool" where
  "reach m p q \<longleftrightarrow> (\<exists>w. isWalk (pathNbrs m) w \<and> hd w = p \<and> last w = q)"

text \<open>
  The invariant of the carving loop: every room on the stack is carved, every carved cell
  is reachable from \<open>(1, 1)\<close>, and a carved room that has left the stack has no
  uncarved room two cells away.
\<close>

definition dfsInv :: "int \<Rightarrow> int \<Rightarrow> cell list list \<Rightarrow> coord list \<Rightarrow> bool" where
  "dfsInv C R m stack \<longleftrightarrow>
     plainGrid C R m \<and>
     (\<forall>p\<in>set stack. room C R p \<and> isPath m (fst p) (snd p)) \<and>
     (\<forall>x y. isPath m x y \<longrightarrow> reach m (1, 1) (x, y)) \<and>
     (\<forall>p. room C R p \<and> isPath m (fst p) (snd p) \<and> p \<notin> set stack \<longrightarrow>
          (\<forall>d\<in>set twoSteps. interior C R (fst p + fst d, snd p + snd d) \<longrightarrow>
               isPath m (fst p + fst d) (snd p + snd d)))"

section \<open>Example sessions\<close>

text \<open>
  Grids are drawn as pictures: \<open>#\<close> a wall, \<open>.\<close> a path cell, \<open>f\<close> a filled path cell,
  \<open>d\<close> a path cell whose \<^verbatim>\<open>deadEnd\<close> flag is set.
\<close>

definition cellOf :: "char \<Rightarrow> cell" where
  "cellOf ch =
     (if ch = CHR ''#'' then MazeCell Wall
      else \<lparr>ctype = Path, filled = (ch = CHR ''f''), deadEnd = (ch = CHR ''d'')\<rparr>)"

definition gridOf :: "string list \<Rightarrow> cell list list" where
  "gridOf pic = map (map cellOf) pic"

text \<open>The state before \<^verbatim>\<open>init()\<close> with the size inputs at 5, and an environment with
  reverse mode off whose random source always draws 0.\<close>

definition fresh5 :: state where
  "fresh5 = \<lparr>cols = 5, rows = 5, maze = [], player = (0, 0), start = (0, 0), endp = (0, 0),
     originalPathCount = 0, visitedCount = 0, undoStack = [], score = 0, highscore = 0\<rparr>"

definition env0 :: env where
  "env0 = \<lparr>revChecked = False, diffValue = Normal, elapsedSec = 30, random = (\<lambda>k. 0)\<rparr>"

text \<open>The 5 by 5 maze generated from \<open>fresh5\<close> with that source.\<close>

definition gen5 :: state where
  "gen5 =
     \<lparr>cols = 5, rows = 5,
      maze = gridOf [''#####'',
                     ''#.#d#'',
                     ''#.#.#'',
                     ''#...#'',
                     ''#####''],
      player = (1, 1), start = (1, 1), endp = (3, 3),
      originalPathCount = 7, visitedCount = 1, undoStack = [], score = 0, highscore = 0\<rparr>"

text \<open>The same session after one move \<^verbatim>\<open>attemptMove(0, 1)\<close> from the start, and after
  two.\<close>

definition moved5 :: state where
  "moved5 =
     \<lparr>cols = 5, rows = 5,
      maze = gridOf [''#####'',
                     ''#f#d#'',
                     ''#d#.#'',
                     ''#...#'',
                     ''#####''],
      player = (1, 2), start = (1, 1), endp = (3, 3),
      originalPathCount = 7, visitedCount = 2,
      undoStack = [\<lparr>prevX = 1, prevY = 1, snapFilled = Some (1, 1)\<rparr>],
      score = 1, highscore = 0\<rparr>"

definition played5 :: state where
  "played5 =
     \<lparr>cols = 5, rows = 5,
      maze = gridOf [''#####'',
                     ''#f#d#'',
                     ''#f#.#'',
                     ''#d..#'',
                     ''#####''],
      player = (1, 3), start = (1, 1), endp = (3, 3),
      originalPathCount = 7, visitedCount = 3,
      undoStack = [\<lparr>prevX = 1, prevY = 2, snapFilled = Some (1, 2)\<rparr>,
                   \<lparr>prevX = 1, prevY = 1, snapFilled = Some (1, 1)\<rparr>],
      score = 2, highscore = 0\<rparr>"

text \<open>What \<^verbatim>\<open>recomputeAllDeadEnds\<close> makes of \<open>played5\<close>.\<close>

definition played5_full :: state where
  "played5_full =
     played5\<lparr>maze := gridOf [''#####'',
                             ''#f#d#'',
                             ''#f#.#'',
                             ''#...#'',
                             ''#####'']\<rparr>"

text \<open>The walkability snapshot of \<open>gen5\<close>, a dead-end request from its start, and two
  malformed requests without a start.\<close>

definition grid5 :: "int list list" where
  "grid5 = [[0, 0, 0, 0, 0],
            [0, 1, 0, 1, 0],
            [0, 1, 0, 1, 0],
            [0, 1, 1, 1, 0],
            [0, 0, 0, 0, 0]]"

definition bfsReq5 :: bfs_request where
  "bfsReq5 = \<lparr>b_cmd = ''bfs-deadend'', b_grid = Some grid5, b_cols = 5, b_rows = 5,
               b_start = Some (1, 1), b_deadEnds = Some [(3, 1)]\<rparr>"

text \<open>The path that the search posts for \<open>bfsReq5\<close>.\<close>

definition path5 :: "coord list" where
  "path5 = [(1, 1), (1, 2), (1, 3), (2, 3), (3, 3), (3, 2), (3, 1)]"

definition bfsNoStart :: bfs_request where
  "bfsNoStart = bfsReq5\<lparr>b_start := None\<rparr>"

definition astarReq5 :: astar_request where
  "astarReq5 = \<lparr>a_cmd = ''astar'', a_grid = Some grid5, a_cols = 5, a_rows = 5,
                 a_start = Some (1, 1), a_end = Some (3, 3)\<rparr>"

definition astarNoStart :: astar_request where
  "astarNoStart = astarReq5\<lparr>a_start := None\<rparr>"

text \<open>The A* request of \<open>astarReq5\<close> with the wall cell \<open>(0, 0)\<close> as goal.\<close>

definition astarWall5 :: astar_request where
  "astarWall5 = astarReq5\<lparr>a_end := Some (0, 0)\<rparr>"

text \<open>What \<^verbatim>\<open>recomputeAllDeadEnds\<close> makes of \<open>moved5\<close>.\<close>

definition moved5_full :: state where
  "moved5_full =
     moved5\<lparr>maze := gridOf [''#####'',
                            ''#f#d#'',
                            ''#.#.#'',
                            ''#...#'',
                            ''#####'']\<rparr>"

text \<open>The environment \<open>env0\<close> with reverse mode on, and the session \<open>played5\<close> continued in
  reverse mode: a step right to \<open>(2, 3)\<close>, a step back left onto \<open>(1, 3)\<close>, whose flag is
  set, and the undo of that step.\<close>

definition envRev :: env where
  "envRev = env0\<lparr>revChecked := True\<rparr>"

definition stepped5 :: state where
  "stepped5 =
     played5\<lparr>player := (2, 3), visitedCount := 4, score := 3,
             undoStack := \<lparr>prevX = 1, prevY = 3, snapFilled = None\<rparr> # undoStack played5\<rparr>"

definition bonus5 :: state where
  "bonus5 =
     \<lparr>cols = 5, rows = 5,
      maze = gridOf [''#####'',
                     ''#f#d#'',
                     ''#f#.#'',
                     ''#...#'',
                     ''#####''],
      player = (1, 3), start = (1, 1), endp = (3, 3),
      originalPathCount = 7, visitedCount = 5,
      undoStack = \<lparr>prevX = 2, prevY = 3, snapFilled = None\<rparr> # undoStack stepped5,
      score = 14, highscore = 0\<rparr>"

definition undone5 :: state where
  "undone5 = bonus5\<lparr>player := (2, 3), undoStack := undoStack stepped5\<rparr>"

section \<open>Properties of the dead-end maintainer\<close>

lemma wf_state_iff:
  "wf_state s \<longleftrightarrow> int (length (maze s)) = rows s \<and>
     (\<forall>i < length (maze s). int (length (maze s ! i)) = cols s)"
  by (simp add: wf_state_def list_all_length)

lemma noFilled_cellAt:
  assumes "wf_state s" "noFilled s" "inBounds s x y"
  shows "\<not> filled (cellAt s x y)"
proof -
  have a: "nat y < length (maze s)"
    using assms by (auto simp: wf_state_iff inBounds_def)
  then have b: "nat x < length (maze s ! nat y)"
    using assms by (auto simp: wf_state_iff inBounds_def)
  show ?thesis
    using assms(2) a b by (simp add: noFilled_def list_all_length cellAt_def)
qed

lemma getCell_wf:
  "wf_state s \<Longrightarrow> inBounds s x y \<Longrightarrow> getCell (maze s) x y = Inr (cellAt s x y)"
  by (auto simp: wf_state_iff inBounds_def getCell_def cellAt_def)

lemma countE_pure:
  "(\<And>a. a \<in> set as \<Longrightarrow> p a = Inr (q a)) \<Longrightarrow> countE p as = Inr (length (filter q as))"
  by (induction as) auto

lemma cellAt_setCell:
  assumes "wf_state s" "inBounds s x y" "inBounds s x' y'"
  shows "cellAt (s\<lparr>maze := setCell (maze s) x y c\<rparr>) x' y' =
           (if x' = x \<and> y' = y then c else cellAt s x' y')"
proof -
  have a: "nat y < length (maze s)" "nat y' < length (maze s)"
    using assms by (auto simp: wf_state_iff inBounds_def)
  have b: "nat x < length (maze s ! nat y)" "nat x' < length (maze s ! nat y')"
    using assms a by (auto simp: wf_state_iff inBounds_def)
  have c: "(nat x = nat x') = (x = x')" "(nat y = nat y') = (y = y')"
    using assms by (auto simp: inBounds_def)
  show ?thesis
    using a b c by (auto simp: cellAt_def setCell_def nth_list_update)
qed

lemma wf_setCell:
  "wf_state s \<Longrightarrow> wf_state (s\<lparr>maze := setCell (maze s) x y c\<rparr>)"
proof (cases "nat y < length (maze s)")
  case True
  assume "wf_state s"
  with True show ?thesis
    by (auto simp: wf_state_iff setCell_def nth_list_update)
next
  case False
  assume "wf_state s"
  with False show ?thesis
    by (simp add: wf_state_iff setCell_def)
qed

lemma inBounds_maze_upd [simp]: "inBounds (s\<lparr>maze := m\<rparr>) x y = inBounds s x y"
  by (simp add: inBounds_def)

lemma inBounds_opc_upd [simp]: "inBounds (s\<lparr>originalPathCount := m\<rparr>) x y = inBounds s x y"
  by (simp add: inBounds_def)

lemma wf_opc_upd [simp]: "wf_state (s\<lparr>originalPathCount := n\<rparr>) = wf_state s"
  by (simp add: wf_state_iff)

lemma cellAt_opc_upd [simp]: "cellAt (s\<lparr>originalPathCount := n\<rparr>) x y = cellAt s x y"
  by (simp add: cellAt_def)

lemma sameFrame_refl: "sameFrame s s"
  by (simp add: sameFrame_def)

lemma sameFrame_trans: "sameFrame s s' \<Longrightarrow> sameFrame s' s'' \<Longrightarrow> sameFrame s s''"
  by (simp add: sameFrame_def inBounds_def)

lemma flagged_props:
  assumes "wf_state s" "inBounds s x y"
  shows "wf_state (flagged s x y b n)"
    and "sameFrame s (flagged s x y b n)"
    and "inBounds s x' y' \<Longrightarrow> deadEnd (cellAt (flagged s x y b n) x' y') =
           (if (x', y') = (x, y) then b else deadEnd (cellAt s x' y'))"
proof -
  have eq: "flagged s x y b n =
      (s\<lparr>maze := setCell (maze s) x y ((cellAt s x y)\<lparr>deadEnd := b\<rparr>)\<rparr>)\<lparr>originalPathCount := n\<rparr>"
    by (simp add: flagged_def)
  show "wf_state (flagged s x y b n)"
    unfolding eq using assms(1) by (simp add: wf_setCell)
  have c: "\<And>x' y'. inBounds s x' y' \<Longrightarrow> cellAt (flagged s x y b n) x' y' =
      (if x' = x \<and> y' = y then (cellAt s x y)\<lparr>deadEnd := b\<rparr> else cellAt s x' y')"
    unfolding eq using assms by (simp add: cellAt_setCell)
  show "sameFrame s (flagged s x y b n)"
    unfolding sameFrame_def using c by (simp add: flagged_def)
  show "inBounds s x' y' \<Longrightarrow> deadEnd (cellAt (flagged s x y b n) x' y') =
           (if (x', y') = (x, y) then b else deadEnd (cellAt s x' y'))"
    using c by simp
qed

lemma fold_flags:
  assumes step_in: "\<And>s p. wf_state s \<Longrightarrow> cols s = C \<Longrightarrow> rows s = R \<Longrightarrow>
            inBounds s (fst p) (snd p) \<Longrightarrow>
            \<exists>n. step s p = Inr (flagged s (fst p) (snd p) (F s (fst p) (snd p)) n)"
    and step_out: "\<And>s p. cols s = C \<Longrightarrow> rows s = R \<Longrightarrow> p \<in> A \<Longrightarrow>
            \<not> inBounds s (fst p) (snd p) \<Longrightarrow> step s p = Inr s"
    and F_frame: "\<And>s s' x y. wf_state s \<Longrightarrow> wf_state s' \<Longrightarrow> sameFrame s s' \<Longrightarrow>
            inBounds s x y \<Longrightarrow> F s' x y = F s x y"
  shows "wf_state s \<Longrightarrow> cols s = C \<Longrightarrow> rows s = R \<Longrightarrow> set ps \<subseteq> A \<Longrightarrow>
    \<exists>n m. foldE step ps s = Inr (s\<lparr>originalPathCount := n, maze := m\<rparr>) \<and>
       wf_state (s\<lparr>originalPathCount := n, maze := m\<rparr>) \<and>
       sameFrame s (s\<lparr>originalPathCount := n, maze := m\<rparr>) \<and>
       (\<forall>x y. inBounds s x y \<longrightarrow>
          deadEnd (cellAt (s\<lparr>originalPathCount := n, maze := m\<rparr>) x y) =
            (if (x, y) \<in> set ps then F s x y else deadEnd (cellAt s x y)))"
proof (induction ps arbitrary: s)
  case Nil
  have "s = s\<lparr>originalPathCount := originalPathCount s, maze := maze s\<rparr>" by simp
  then show ?case
    using Nil.prems(1) sameFrame_refl[of s]
    by (metis empty_iff foldE.simps(1) list.set(1))
next
  case (Cons p ps)
  show ?case
  proof (cases "inBounds s (fst p) (snd p)")
    case False
    have st: "step s p = Inr s"
      using step_out[OF Cons.prems(2,3) _ False] Cons.prems(4) by simp
    from Cons.IH[OF Cons.prems(1,2,3)] Cons.prems(4)
    obtain n m where
      f: "foldE step ps s = Inr (s\<lparr>originalPathCount := n, maze := m\<rparr>)" and
      w: "wf_state (s\<lparr>originalPathCount := n, maze := m\<rparr>)" and
      fr: "sameFrame s (s\<lparr>originalPathCount := n, maze := m\<rparr>)" and
      fl: "\<forall>x y. inBounds s x y \<longrightarrow>
          deadEnd (cellAt (s\<lparr>originalPathCount := n, maze := m\<rparr>) x y) =
            (if (x, y) \<in> set ps then F s x y else deadEnd (cellAt s x y))"
      by auto
    have "\<forall>x y. inBounds s x y \<longrightarrow> ((x, y) \<in> set (p # ps)) = ((x, y) \<in> set ps)"
      using False by auto
    with f w fr fl st show ?thesis
      by (intro exI[of _ n] exI[of _ m]) simp
  next
    case True
    from step_in[OF Cons.prems(1,2,3) True] obtain k where
      st: "step s p = Inr (flagged s (fst p) (snd p) (F s (fst p) (snd p)) k)" by blast
    let ?s1 = "flagged s (fst p) (snd p) (F s (fst p) (snd p)) k"
    note fp = flagged_props[OF Cons.prems(1) True, where b = "F s (fst p) (snd p)" and n = k]
    have c1: "cols ?s1 = C" "rows ?s1 = R"
      using Cons.prems(2,3) by (simp_all add: flagged_def)
    have ib: "\<And>x y. inBounds ?s1 x y = inBounds s x y"
      by (simp add: flagged_def)
    from Cons.IH[OF fp(1) c1] Cons.prems(4)
    obtain n m where
      f: "foldE step ps ?s1 = Inr (?s1\<lparr>originalPathCount := n, maze := m\<rparr>)" and
      w: "wf_state (?s1\<lparr>originalPathCount := n, maze := m\<rparr>)" and
      fr: "sameFrame ?s1 (?s1\<lparr>originalPathCount := n, maze := m\<rparr>)" and
      fl: "\<forall>x y. inBounds ?s1 x y \<longrightarrow>
          deadEnd (cellAt (?s1\<lparr>originalPathCount := n, maze := m\<rparr>) x y) =
            (if (x, y) \<in> set ps then F ?s1 x y else deadEnd (cellAt ?s1 x y))"
      by auto
    have e: "?s1\<lparr>originalPathCount := n, maze := m\<rparr> = s\<lparr>originalPathCount := n, maze := m\<rparr>"
      by (simp add: flagged_def)
    have F1: "\<And>x y. inBounds s x y \<Longrightarrow> F ?s1 x y = F s x y"
      using F_frame[OF Cons.prems(1) fp(1) fp(2)] by simp
    have fl': "\<forall>x y. inBounds s x y \<longrightarrow>
          deadEnd (cellAt (s\<lparr>originalPathCount := n, maze := m\<rparr>) x y) =
            (if (x, y) \<in> set (p # ps) then F s x y else deadEnd (cellAt s x y))"
    proof (intro allI impI)
      fix x y assume i: "inBounds s x y"
      have "deadEnd (cellAt (s\<lparr>originalPathCount := n, maze := m\<rparr>) x y) =
            (if (x, y) \<in> set ps then F ?s1 x y else deadEnd (cellAt ?s1 x y))"
        using fl i ib e by metis
      also have "\<dots> = (if (x, y) \<in> set (p # ps) then F s x y else deadEnd (cellAt s x y))"
        using F1[OF i] fp(3)[OF i] by (cases p) auto
      finally show "deadEnd (cellAt (s\<lparr>originalPathCount := n, maze := m\<rparr>) x y) =
            (if (x, y) \<in> set (p # ps) then F s x y else deadEnd (cellAt s x y))" .
    qed
    have "foldE step (p # ps) s = Inr (s\<lparr>originalPathCount := n, maze := m\<rparr>)"
      using st f e by simp
    moreover have "wf_state (s\<lparr>originalPathCount := n, maze := m\<rparr>)"
      using w e by simp
    moreover have "sameFrame s (s\<lparr>originalPathCount := n, maze := m\<rparr>)"
      using sameFrame_trans[OF fp(2) fr] e by simp
    ultimately show ?thesis using fl' by blast
  qed
qed

lemma isPathNbr_wf:
  "wf_state s \<Longrightarrow> isPathNbr s x y d = Inr (pathAt s (x + fst d) (y + snd d))"
  by (simp add: isPathNbr_def pathAt_def getCell_wf Let_def)

lemma isOpenNbr_wf:
  "wf_state s \<Longrightarrow> isOpenNbr s x y d = Inr (walkable s (x + fst d) (y + snd d))"
  by (simp add: isOpenNbr_def walkable_def getCell_wf Let_def)

lemma isWalkable_wf: "wf_state s \<Longrightarrow> isWalkable s x y = Inr (walkable s x y)"
  by (simp add: isWalkable_def walkable_def getCell_wf)

lemma recomputeAt_flagged:
  assumes "wf_state s" "inBounds s (fst p) (snd p)"
  shows "\<exists>n. recomputeAt s p = Inr (flagged s (fst p) (snd p) (flagAll s (fst p) (snd p)) n)"
proof -
  have cnt: "countE (isPathNbr s (fst p) (snd p)) dirs4 =
      Inr (length (filter (\<lambda>d. pathAt s (fst p + fst d) (snd p + snd d)) dirs4))"
    by (rule countE_pure) (simp add: isPathNbr_wf[OF assms(1)])
  show ?thesis
  proof (cases "ctype (cellAt s (fst p) (snd p)) = Path")
    case True
    then have "recomputeAt s p =
        Inr (flagged s (fst p) (snd p) (flagAll s (fst p) (snd p)) (originalPathCount s + 1))"
      using getCell_wf[OF assms] cnt
      by (auto simp: recomputeAt_def flagged_def flagAll_def Let_def prod_eq_iff)
    then show ?thesis by blast
  next
    case False
    then have "recomputeAt s p =
        Inr (flagged s (fst p) (snd p) (flagAll s (fst p) (snd p)) (originalPathCount s))"
      using getCell_wf[OF assms]
      by (simp add: recomputeAt_def flagged_def flagAll_def Let_def)
    then show ?thesis by blast
  qed
qed

lemma recomputeNearAt_flagged:
  assumes "wf_state s" "inBounds s (x + fst d) (y + snd d)"
  shows "recomputeNearAt x y s d =
     Inr (flagged s (x + fst d) (y + snd d) (isDeadEndSpec s (x + fst d) (y + snd d))
            (originalPathCount s))"
proof -
  have cnt: "countE (isOpenNbr s (x + fst d) (y + snd d)) dirs4 =
      Inr (length (filter (\<lambda>e. walkable s (x + fst d + fst e) (y + snd d + snd e)) dirs4))"
    by (rule countE_pure) (simp add: isOpenNbr_wf[OF assms(1)])
  show ?thesis
    using getCell_wf[OF assms] cnt assms(2)
    by (auto simp: recomputeNearAt_def flagged_def isDeadEndSpec_def Let_def prod_eq_iff)
qed

lemma flagAll_frame:
  assumes "sameFrame s s'" "inBounds s x y"
  shows "flagAll s' x y = flagAll s x y"
proof -
  have ib: "\<And>a b. inBounds s' a b = inBounds s a b"
    using assms(1) by (simp add: sameFrame_def inBounds_def)
  have "\<And>a b. pathAt s' a b = pathAt s a b"
    using assms(1) ib by (auto simp: pathAt_def sameFrame_def)
  then show ?thesis
    using assms by (simp add: flagAll_def sameFrame_def)
qed

lemma walkable_frame:
  assumes "sameFrame s s'"
  shows "walkable s' a b = walkable s a b"
proof -
  have ib: "inBounds s' a b = inBounds s a b"
    using assms(1) by (simp add: sameFrame_def inBounds_def)
  then show ?thesis
    using assms by (auto simp: walkable_def sameFrame_def)
qed

lemma isDeadEndSpec_frame:
  assumes "sameFrame s s'" "inBounds s x y"
  shows "isDeadEndSpec s' x y = isDeadEndSpec s x y"
  using assms walkable_frame[OF assms(1)] by (simp add: isDeadEndSpec_def sameFrame_def)

lemma in_allCoords:
  "(x, y) \<in> set (allCoords c r) \<longleftrightarrow> 0 \<le> x \<and> x < c \<and> 0 \<le> y \<and> y < r"
proof -
  have "(x, y) \<in> set (allCoords c r) \<longleftrightarrow> (\<exists>i<nat c. \<exists>j<nat r. x = int i \<and> y = int j)"
    by (auto simp: allCoords_def image_iff Bex_def)
  also have "\<dots> \<longleftrightarrow> 0 \<le> x \<and> x < c \<and> 0 \<le> y \<and> y < r"
  proof
    assume "\<exists>i<nat c. \<exists>j<nat r. x = int i \<and> y = int j"
    then show "0 \<le> x \<and> x < c \<and> 0 \<le> y \<and> y < r" by auto
  next
    assume a: "0 \<le> x \<and> x < c \<and> 0 \<le> y \<and> y < r"
    then have "nat x < nat c \<and> nat y < nat r \<and> x = int (nat x) \<and> y = int (nat y)"
      by simp
    then show "\<exists>i<nat c. \<exists>j<nat r. x = int i \<and> y = int j" by blast
  qed
  finally show ?thesis .
qed

lemma recomputeAllDeadEnds_flags:
  assumes "wf_state s"
  shows "\<exists>n m. recomputeAllDeadEnds s = Inr (s\<lparr>originalPathCount := n, maze := m\<rparr>) \<and>
       wf_state (s\<lparr>originalPathCount := n, maze := m\<rparr>) \<and>
       sameFrame s (s\<lparr>originalPathCount := n, maze := m\<rparr>) \<and>
       (\<forall>x y. inBounds s x y \<longrightarrow>
          deadEnd (cellAt (s\<lparr>originalPathCount := n, maze := m\<rparr>) x y) = flagAll s x y)"
proof -
  let ?s0 = "s\<lparr>originalPathCount := 0\<rparr>"
  let ?A = "{p. 0 \<le> fst p \<and> fst p < cols s \<and> 0 \<le> snd p \<and> snd p < rows s}"
  have "\<exists>n m. foldE recomputeAt (allCoords (cols s) (rows s)) ?s0 =
          Inr (?s0\<lparr>originalPathCount := n, maze := m\<rparr>) \<and>
       wf_state (?s0\<lparr>originalPathCount := n, maze := m\<rparr>) \<and>
       sameFrame ?s0 (?s0\<lparr>originalPathCount := n, maze := m\<rparr>) \<and>
       (\<forall>x y. inBounds ?s0 x y \<longrightarrow>
          deadEnd (cellAt (?s0\<lparr>originalPathCount := n, maze := m\<rparr>) x y) =
            (if (x, y) \<in> set (allCoords (cols s) (rows s)) then flagAll ?s0 x y
             else deadEnd (cellAt ?s0 x y)))"
  proof (rule fold_flags[where C = "cols s" and R = "rows s" and A = ?A])
    show "wf_state ?s0" using assms by simp
    show "set (allCoords (cols s) (rows s)) \<subseteq> ?A" by (auto simp: in_allCoords)
    show "\<And>t p. wf_state t \<Longrightarrow> inBounds t (fst p) (snd p) \<Longrightarrow>
        \<exists>n. recomputeAt t p = Inr (flagged t (fst p) (snd p) (flagAll t (fst p) (snd p)) n)"
      by (rule recomputeAt_flagged)
    show "\<And>t p. cols t = cols s \<Longrightarrow> rows t = rows s \<Longrightarrow> p \<in> ?A \<Longrightarrow>
        \<not> inBounds t (fst p) (snd p) \<Longrightarrow> recomputeAt t p = Inr t"
      by (simp add: inBounds_def)
    show "\<And>t t' x y. sameFrame t t' \<Longrightarrow> inBounds t x y \<Longrightarrow> flagAll t' x y = flagAll t x y"
      by (rule flagAll_frame)
  qed simp_all
  then obtain n m where
    f: "foldE recomputeAt (allCoords (cols s) (rows s)) ?s0 =
          Inr (?s0\<lparr>originalPathCount := n, maze := m\<rparr>)" and
    w: "wf_state (?s0\<lparr>originalPathCount := n, maze := m\<rparr>)" and
    fr: "sameFrame ?s0 (?s0\<lparr>originalPathCount := n, maze := m\<rparr>)" and
    fl: "\<forall>x y. inBounds ?s0 x y \<longrightarrow>
          deadEnd (cellAt (?s0\<lparr>originalPathCount := n, maze := m\<rparr>) x y) =
            (if (x, y) \<in> set (allCoords (cols s) (rows s)) then flagAll ?s0 x y
             else deadEnd (cellAt ?s0 x y))"
    by blast
  have fa: "\<And>x y. flagAll ?s0 x y = flagAll s x y"
    by (simp add: flagAll_def pathAt_def)
  have "recomputeAllDeadEnds s = Inr (s\<lparr>originalPathCount := n, maze := m\<rparr>)"
    using f by (simp add: recomputeAllDeadEnds_def)
  moreover have "wf_state (s\<lparr>originalPathCount := n, maze := m\<rparr>)" using w by simp
  moreover have "sameFrame s (s\<lparr>originalPathCount := n, maze := m\<rparr>)"
    using fr by (simp add: sameFrame_def)
  moreover have "\<forall>x y. inBounds s x y \<longrightarrow>
          deadEnd (cellAt (s\<lparr>originalPathCount := n, maze := m\<rparr>) x y) = flagAll s x y"
    using fl fa by (simp add: in_allCoords inBounds_def)
  ultimately show ?thesis by blast
qed

lemma foldE_preserves:
  assumes "\<And>s a s'. f s a = Inr s' \<Longrightarrow> P s \<Longrightarrow> P s'"
  shows "foldE f as s = Inr s' \<Longrightarrow> P s \<Longrightarrow> P s'"
proof (induction as arbitrary: s)
  case Nil
  then show ?case by simp
next
  case (Cons a as)
  then show ?case using assms by (auto split: sum.splits)
qed

lemma foldE_map: "foldE f (map g as) s = foldE (\<lambda>s a. f s (g a)) as s"
  by (induction as arbitrary: s) (auto split: sum.splits)

lemma recomputeNearAt_shift:
  "recomputeNearAt x y s d = recomputeNearAt 0 0 s (x + fst d, y + snd d)"
  by (simp add: recomputeNearAt_def)

lemma recomputeNearAt_opc:
  "recomputeNearAt x y s d = Inr s' \<Longrightarrow> originalPathCount s = k \<Longrightarrow> originalPathCount s' = k"
  by (auto simp: recomputeNearAt_def Let_def split: if_splits sum.splits)

lemma recomputeDeadendsNear_flags:
  assumes "wf_state s"
  shows "\<exists>m. recomputeDeadendsNear x y s = Inr (s\<lparr>maze := m\<rparr>) \<and>
       wf_state (s\<lparr>maze := m\<rparr>) \<and>
       sameFrame s (s\<lparr>maze := m\<rparr>) \<and>
       (\<forall>a b. inBounds s a b \<longrightarrow>
          deadEnd (cellAt (s\<lparr>maze := m\<rparr>) a b) =
            (if (a, b) \<in> set (nearCells x y) then isDeadEndSpec s a b
             else deadEnd (cellAt s a b)))"
proof -
  have e: "recomputeDeadendsNear x y s = foldE (recomputeNearAt 0 0) (nearCells x y) s"
    unfolding recomputeDeadendsNear_def nearCells_def foldE_map
    using recomputeNearAt_shift[of x y] by presburger
  have "\<exists>n m. foldE (recomputeNearAt 0 0) (nearCells x y) s =
          Inr (s\<lparr>originalPathCount := n, maze := m\<rparr>) \<and>
       wf_state (s\<lparr>originalPathCount := n, maze := m\<rparr>) \<and>
       sameFrame s (s\<lparr>originalPathCount := n, maze := m\<rparr>) \<and>
       (\<forall>a b. inBounds s a b \<longrightarrow>
          deadEnd (cellAt (s\<lparr>originalPathCount := n, maze := m\<rparr>) a b) =
            (if (a, b) \<in> set (nearCells x y) then isDeadEndSpec s a b
             else deadEnd (cellAt s a b)))"
  proof (rule fold_flags[where C = "cols s" and R = "rows s" and A = UNIV])
    show "\<And>t p. wf_state t \<Longrightarrow> inBounds t (fst p) (snd p) \<Longrightarrow>
        \<exists>n. recomputeNearAt 0 0 t p =
          Inr (flagged t (fst p) (snd p) (isDeadEndSpec t (fst p) (snd p)) n)"
      using recomputeNearAt_flagged[where x = 0 and y = 0] by auto
    show "\<And>t p. \<not> inBounds t (fst p) (snd p) \<Longrightarrow> recomputeNearAt 0 0 t p = Inr t"
      by (simp add: recomputeNearAt_def)
    show "\<And>t t' a b. sameFrame t t' \<Longrightarrow> inBounds t a b \<Longrightarrow>
        isDeadEndSpec t' a b = isDeadEndSpec t a b"
      by (rule isDeadEndSpec_frame)
  qed (simp_all add: assms)
  then obtain n m where
    f: "foldE (recomputeNearAt 0 0) (nearCells x y) s =
          Inr (s\<lparr>originalPathCount := n, maze := m\<rparr>)" and
    r: "wf_state (s\<lparr>originalPathCount := n, maze := m\<rparr>)"
       "sameFrame s (s\<lparr>originalPathCount := n, maze := m\<rparr>)"
       "\<forall>a b. inBounds s a b \<longrightarrow>
          deadEnd (cellAt (s\<lparr>originalPathCount := n, maze := m\<rparr>) a b) =
            (if (a, b) \<in> set (nearCells x y) then isDeadEndSpec s a b
             else deadEnd (cellAt s a b))"
    by blast
  have "originalPathCount (s\<lparr>originalPathCount := n, maze := m\<rparr>) = originalPathCount s"
    by (rule foldE_preserves[where f = "recomputeNearAt 0 0"
          and P = "\<lambda>t. originalPathCount t = originalPathCount s", OF _ f])
       (auto dest: recomputeNearAt_opc)
  then have "s\<lparr>originalPathCount := n, maze := m\<rparr> = s\<lparr>maze := m\<rparr>"
    by simp
  with e f r show ?thesis by metis
qed

lemma recomputeAll_agrees:
  assumes "wf_state s"
    and "noFilled s"
  shows "\<exists>s'. recomputeAllDeadEnds s = Inr s' \<and> sameFrame s s' \<and> wf_state s' \<and>
           (\<exists>n m. s' = s\<lparr>originalPathCount := n, maze := m\<rparr>) \<and>
           (\<forall>x y. inBounds s' x y \<longrightarrow> deadEnd (cellAt s' x y) = isDeadEndSpec s' x y)"
proof -
  from recomputeAllDeadEnds_flags[OF assms(1)] obtain n m where
    r: "recomputeAllDeadEnds s = Inr (s\<lparr>originalPathCount := n, maze := m\<rparr>)" and
    wf': "wf_state (s\<lparr>originalPathCount := n, maze := m\<rparr>)" and
    fr: "sameFrame s (s\<lparr>originalPathCount := n, maze := m\<rparr>)" and
    fl: "\<forall>x y. inBounds s x y \<longrightarrow>
          deadEnd (cellAt (s\<lparr>originalPathCount := n, maze := m\<rparr>) x y) = flagAll s x y"
    by blast
  let ?s' = "s\<lparr>originalPathCount := n, maze := m\<rparr>"
  have nf: "\<And>a b. inBounds s a b \<Longrightarrow> \<not> filled (cellAt s a b)"
    using noFilled_cellAt[OF assms] by blast
  have pw: "\<And>a b. pathAt s a b = walkable s a b"
    using nf by (auto simp: pathAt_def walkable_def)
  have "\<forall>x y. inBounds ?s' x y \<longrightarrow> deadEnd (cellAt ?s' x y) = isDeadEndSpec ?s' x y"
  proof (intro allI impI)
    fix x y assume "inBounds ?s' x y"
    then have i: "inBounds s x y" by (simp add: inBounds_def)
    have "deadEnd (cellAt ?s' x y) = flagAll s x y" using fl i by simp
    also have "\<dots> = isDeadEndSpec s x y"
      using nf[OF i] by (simp add: flagAll_def isDeadEndSpec_def pw)
    also have "\<dots> = isDeadEndSpec ?s' x y"
      using isDeadEndSpec_frame[OF fr i] by simp
    finally show "deadEnd (cellAt ?s' x y) = isDeadEndSpec ?s' x y" .
  qed
  with r fr wf' show ?thesis by blast
qed


lemma gen5_generated: "generateMazeIterative Normal (\<lambda>k. 0) fresh5 = Inr gen5"
  by code_simp

lemma moved5_reached: "attemptMove env0 0 1 gen5 = Inr moved5"
  by code_simp

lemma played5_reached: "attemptMove env0 0 1 moved5 = Inr played5"
  by code_simp

text \<open>
  \<^bold>\<open>C2\<close> (as amended). On every well-formed grid in which no cell is filled, the full
  recompute succeeds, changes no type and no \<^verbatim>\<open>filled\<close> flag, and leaves every cell
  with \<^verbatim>\<open>deadEnd\<close> true exactly when the cell is a path cell, not filled, with exactly
  one 4-neighbour that is a path cell and not filled, and neither the start nor the end.
\<close>

theorem recomputeAllDeadEnds_unfilled:
  assumes "wf_state s" and "noFilled s"
  shows "\<exists>s'. recomputeAllDeadEnds s = Inr s' \<and> sameFrame s s' \<and>
           (\<forall>x y. inBounds s' x y \<longrightarrow> deadEnd (cellAt s' x y) = isDeadEndSpec s' x y)"
  using recomputeAll_agrees[OF assms] by blast

theorem recomputeAllDeadEnds_unfilled_witness:
  "wf_state gen5 \<and> noFilled gen5 \<and>
   (\<exists>s'. recomputeAllDeadEnds gen5 = Inr s' \<and> sameFrame gen5 s' \<and>
           (\<forall>x y. inBounds s' x y \<longrightarrow> deadEnd (cellAt s' x y) = isDeadEndSpec s' x y))"
proof -
  have h1: "wf_state gen5" by code_simp
  have h2: "noFilled gen5" by code_simp
  show ?thesis using recomputeAllDeadEnds_unfilled[OF h1 h2] h1 h2 by simp
qed

text \<open>
  \<^bold>\<open>C2\<close> as stated fails on a grid with filled cells: in \<open>played5\<close> the cell \<open>(1, 3)\<close>
  is a path cell, not filled, whose only unfilled path neighbour is \<open>(2, 3)\<close>, yet the
  full recompute counts the filled neighbour \<open>(1, 2)\<close> as well and leaves the flag off.
\<close>

theorem recomputeAllDeadEnds_filled_counterexample:
  "wf_state played5 \<and> recomputeAllDeadEnds played5 = Inr played5_full \<and>
   isDeadEndSpec played5_full 1 3 \<and> \<not> deadEnd (cellAt played5_full 1 3)"
  by code_simp

section \<open>Properties of the traversal state machine\<close>

text \<open>
  \<^bold>\<open>C9\<close>. On a well-formed state, \<^verbatim>\<open>attemptMove(dx, dy)\<close> towards a cell that is not
  walkable (out of bounds, a wall, or filled) returns the state it was given: grid, agent
  position, score, visited count and undo stack are unchanged, and nothing is thrown.
\<close>

theorem attemptMove_blocked:
  assumes "wf_state s"
    and "\<not> walkable s (fst (player s) + dx) (snd (player s) + dy)"
  shows "attemptMove ev dx dy s = Inr s"
  using assms by (simp add: attemptMove_def isWalkable_wf)

theorem attemptMove_blocked_witness:
  "wf_state played5 \<and>
   \<not> walkable played5 (fst (player played5) + 0) (snd (player played5) + (-1)) \<and>
   attemptMove env0 0 (-1) played5 = Inr played5"
proof -
  have h1: "wf_state played5" by code_simp
  have h2: "\<not> walkable played5 (fst (player played5) + 0) (snd (player played5) + (-1))"
    by code_simp
  show ?thesis using attemptMove_blocked[OF h1 h2] h1 h2 by simp
qed


section \<open>Properties of the nearest-target search\<close>

lemma isWalk_snoc:
  "isWalk A (w @ [v]) \<longleftrightarrow> w = [] \<or> (isWalk A w \<and> v \<in> set (A (last w)))"
  by (induction A w rule: isWalk.induct) auto

lemma isWalk_nonempty: "isWalk A w \<Longrightarrow> w \<noteq> []"
  by auto

lemma bfsInvD:
  assumes "bfsInv A st T B d q V par"
  shows "finite B"
    and "st \<in> V"
    and "d st = 0"
    and "V \<subseteq> B"
    and "distinct q"
    and "set q \<subseteq> V"
    and "\<And>v. v \<notin> V \<or> v = st \<Longrightarrow> par v = None"
    and "\<And>v. v \<in> V \<Longrightarrow> v \<noteq> st \<Longrightarrow>
           \<exists>u. par v = Some u \<and> u \<in> V \<and> u \<notin> set q \<and> v \<in> set (A u) \<and> d v = d u + 1"
    and "sorted (map d q)"
    and "\<And>v x. v \<in> V \<Longrightarrow> x \<in> set q \<Longrightarrow> d v \<le> d x + 1"
    and "\<And>u. u \<in> V \<Longrightarrow> u \<notin> set q \<Longrightarrow> u \<notin> T"
    and "\<And>u x. u \<in> V \<Longrightarrow> u \<notin> set q \<Longrightarrow> x \<in> set q \<Longrightarrow> d u \<le> d x"
    and "\<And>u v. u \<in> V \<Longrightarrow> u \<notin> set q \<Longrightarrow> v \<in> set (A u) \<Longrightarrow> v \<in> V \<and> d v \<le> d u + 1"
proof -
  have c: "finite B \<and> st \<in> V \<and> d st = 0 \<and> V \<subseteq> B \<and> distinct q \<and> set q \<subseteq> V \<and>
     (\<forall>v. v \<notin> V \<or> v = st \<longrightarrow> par v = None) \<and>
     (\<forall>v\<in>V. v \<noteq> st \<longrightarrow>
        (\<exists>u. par v = Some u \<and> u \<in> V \<and> u \<notin> set q \<and> v \<in> set (A u) \<and> d v = d u + 1)) \<and>
     sorted (map d q) \<and>
     (\<forall>v\<in>V. \<forall>x\<in>set q. d v \<le> d x + 1) \<and>
     (\<forall>u\<in>V. u \<notin> set q \<longrightarrow>
        u \<notin> T \<and> (\<forall>x\<in>set q. d u \<le> d x) \<and> (\<forall>v\<in>set (A u). v \<in> V \<and> d v \<le> d u + 1))"
    using assms unfolding bfsInv_def .
  show "finite B" by (rule c[THEN conjunct1])
  show "st \<in> V" by (rule c[THEN conjunct2, THEN conjunct1])
  show "d st = 0" by (rule c[THEN conjunct2, THEN conjunct2, THEN conjunct1])
  show "V \<subseteq> B" by (rule c[THEN conjunct2, THEN conjunct2, THEN conjunct2, THEN conjunct1])
  show "distinct q" by (rule c[THEN conjunct2, THEN conjunct2, THEN conjunct2, THEN conjunct2, THEN conjunct1])
  show "set q \<subseteq> V" by (rule c[THEN conjunct2, THEN conjunct2, THEN conjunct2, THEN conjunct2, THEN conjunct2, THEN conjunct1])
  show "\<And>v. v \<notin> V \<or> v = st \<Longrightarrow> par v = None"
    by (rule c[THEN conjunct2, THEN conjunct2, THEN conjunct2, THEN conjunct2, THEN conjunct2, THEN conjunct2, THEN conjunct1, rule_format])
  show "\<And>v. v \<in> V \<Longrightarrow> v \<noteq> st \<Longrightarrow>
           \<exists>u. par v = Some u \<and> u \<in> V \<and> u \<notin> set q \<and> v \<in> set (A u) \<and> d v = d u + 1"
    by (rule c[THEN conjunct2, THEN conjunct2, THEN conjunct2, THEN conjunct2, THEN conjunct2, THEN conjunct2, THEN conjunct2, THEN conjunct1, rule_format])
  show "sorted (map d q)" by (rule c[THEN conjunct2, THEN conjunct2, THEN conjunct2, THEN conjunct2, THEN conjunct2, THEN conjunct2, THEN conjunct2, THEN conjunct2, THEN conjunct1])
  show "\<And>v x. v \<in> V \<Longrightarrow> x \<in> set q \<Longrightarrow> d v \<le> d x + 1"
    by (rule c[THEN conjunct2, THEN conjunct2, THEN conjunct2, THEN conjunct2, THEN conjunct2, THEN conjunct2, THEN conjunct2, THEN conjunct2, THEN conjunct2, THEN conjunct1, rule_format])
  note l = c[THEN conjunct2, THEN conjunct2, THEN conjunct2, THEN conjunct2, THEN conjunct2, THEN conjunct2, THEN conjunct2, THEN conjunct2, THEN conjunct2, THEN conjunct2, rule_format]
  show "\<And>u. u \<in> V \<Longrightarrow> u \<notin> set q \<Longrightarrow> u \<notin> T"
    by (rule l[THEN conjunct1])
  show "\<And>u x. u \<in> V \<Longrightarrow> u \<notin> set q \<Longrightarrow> x \<in> set q \<Longrightarrow> d u \<le> d x"
    by (rule l[THEN conjunct2, THEN conjunct1, rule_format])
  show "\<And>u v. u \<in> V \<Longrightarrow> u \<notin> set q \<Longrightarrow> v \<in> set (A u) \<Longrightarrow> v \<in> V \<and> d v \<le> d u + 1"
    by (rule l[THEN conjunct2, THEN conjunct2, rule_format])
qed

lemma visitAll_result:
  "visitAll k ns (V, par, q) = (V', par', q') \<Longrightarrow>
     V' = V \<union> set ns \<and>
     (\<exists>news. q' = q @ news \<and> distinct news \<and> set news = set ns - V \<and>
        (\<forall>v. par' v = (if v \<in> set news then Some k else par v)))"
proof (induction ns arbitrary: V par q)
  case Nil
  then show ?case by auto
next
  case (Cons n ns)
  show ?case
  proof (cases "n \<in> V")
    case True
    with Cons.prems have "visitAll k ns (V, par, q) = (V', par', q')" by simp
    from Cons.IH[OF this] True show ?thesis by auto
  next
    case False
    with Cons.prems have "visitAll k ns (insert n V, par(n \<mapsto> k), q @ [n]) = (V', par', q')"
      by simp
    from Cons.IH[OF this] obtain news where
      v: "V' = insert n V \<union> set ns" and
      q: "q' = (q @ [n]) @ news" and dn: "distinct news" and
      sn: "set news = set ns - insert n V" and
      p: "\<forall>v. par' v = (if v \<in> set news then Some k else (par(n \<mapsto> k)) v)"
      by blast
    have "q' = q @ (n # news)" using q by simp
    moreover have "distinct (n # news)" using dn sn by auto
    moreover have "set (n # news) = set (n # ns) - V" using sn False by auto
    moreover have "\<forall>v. par' v = (if v \<in> set (n # news) then Some k else par v)"
      using p by auto
    moreover have "V' = V \<union> set (n # ns)" using v by auto
    ultimately show ?thesis by blast
  qed
qed

lemma reconstruct_walk:
  assumes inv: "bfsInv A st T B d q V par"
  shows "v \<in> V \<Longrightarrow> \<exists>w. reconstruct par v acc = Some (w @ acc) \<and> isWalk A w \<and> hd w = st \<and>
            last w = v \<and> length w = d v + 1"
proof (induction "d v" arbitrary: v acc rule: less_induct)
  case less
  show ?case
  proof (cases "v = st")
    case True
    then have "par v = None" using bfsInvD(7)[OF inv, of v] by simp
    then have "reconstruct par v acc = Some ([v] @ acc)"
      by (subst reconstruct.simps) simp
    moreover have "d v = 0" using True bfsInvD(3)[OF inv] by simp
    ultimately show ?thesis using True by (intro exI[of _ "[v]"]) simp
  next
    case False
    from bfsInvD(8)[OF inv less.prems False] obtain u where
      u: "par v = Some u" "u \<in> V" "v \<in> set (A u)" "d v = d u + 1"
      by blast
    have "d u < d v" using u by simp
    from less.hyps[OF this u(2), where acc = "v # acc"] obtain w where
      w: "reconstruct par u (v # acc) = Some (w @ v # acc)" "isWalk A w" "hd w = st"
         "last w = u" "length w = d u + 1"
      by blast
    have "reconstruct par v acc = Some ((w @ [v]) @ acc)"
      using u(1) w(1) by (subst reconstruct.simps) simp
    moreover have "isWalk A (w @ [v])" using w u by (simp add: isWalk_snoc)
    moreover have "hd (w @ [v]) = st" using w isWalk_nonempty[OF w(2)] by simp
    moreover have "length (w @ [v]) = d v + 1" using w u by simp
    ultimately show ?thesis by (intro exI[of _ "w @ [v]"]) simp
  qed
qed

lemma walk_frontier:
  assumes inv: "bfsInv A st T B d q V par"
  shows "isWalk A w \<Longrightarrow> hd w = st \<Longrightarrow>
     (last w \<in> V \<and> last w \<notin> set q \<and> d (last w) + 1 \<le> length w) \<or>
     (\<exists>x\<in>set q. d x + 1 \<le> length w)"
proof (induction w rule: rev_induct)
  case Nil
  then show ?case by simp
next
  case (snoc v w)
  show ?case
  proof (cases "w = []")
    case True
    then have "v = st" using snoc.prems by simp
    then have "v \<in> V" "d v = 0" using bfsInvD(2,3)[OF inv] by simp_all
    then show ?thesis using True by (cases "v \<in> set q") auto
  next
    case False
    then have w: "isWalk A w" "v \<in> set (A (last w))" "hd w = st"
      using snoc.prems by (simp_all add: isWalk_snoc)
    from snoc.IH[OF w(1) w(3)] show ?thesis
    proof
      assume a: "last w \<in> V \<and> last w \<notin> set q \<and> d (last w) + 1 \<le> length w"
      then have vv: "v \<in> V \<and> d v \<le> d (last w) + 1"
        using bfsInvD(13)[OF inv _ _ w(2)] by simp
      show ?thesis
      proof (cases "v \<in> set q")
        case True
        moreover have "d v + 1 \<le> length (w @ [v])" using vv a by simp
        ultimately show ?thesis by metis
      next
        case False
        then show ?thesis using vv a by simp
      qed
    next
      assume "\<exists>x\<in>set q. d x + 1 \<le> length w"
      then obtain x where "x \<in> set q" "d x + 1 \<le> length w" by metis
      then have "x \<in> set q \<and> d x + 1 \<le> length (w @ [v])" by simp
      then show ?thesis by metis
    qed
  qed
qed

lemma sorted_map_const: "(\<And>x. x \<in> set xs \<Longrightarrow> f x = (c::nat)) \<Longrightarrow> sorted (map f xs)"
  by (induction xs) auto

lemma bfsInv_step:
  assumes inv: "bfsInv A st T B d (cur # q0) V par"
    and notT: "cur \<notin> T"
    and sub: "set (A cur) \<subseteq> B"
    and va: "visitAll cur (A cur) (V, par, q0) = (V', par', q')"
  shows "\<exists>d'. bfsInv A st T B d' q' V' par' \<and> card V' + length q0 = card V + length q'"
proof -
  from visitAll_result[OF va] obtain news where
    V': "V' = V \<union> set (A cur)" and q': "q' = q0 @ news" and dn: "distinct news" and
    sn: "set news = set (A cur) - V" and
    par': "\<And>v. par' v = (if v \<in> set news then Some cur else par v)"
    by metis
  note D = bfsInvD[OF inv]
  define d' where "d' = (\<lambda>v. if v \<in> set news then d cur + 1 else d v)"
  have finV: "finite V" using D(1,4) by (rule rev_finite_subset)
  have curV: "cur \<in> V" and curq: "cur \<notin> set q0" and dq0: "distinct q0" and q0V: "set q0 \<subseteq> V"
    using D(5,6) by auto
  have newsV: "\<And>x. x \<in> set news \<Longrightarrow> x \<notin> V" using sn by auto
  have newsA: "\<And>x. x \<in> set news \<Longrightarrow> x \<in> set (A cur)" using sn by auto
  have V'eq: "V' = V \<union> set news" using V' sn by auto
  have dV: "\<And>x. x \<in> V \<Longrightarrow> d' x = d x" using newsV by (auto simp: d'_def)
  have dN: "\<And>x. x \<in> set news \<Longrightarrow> d' x = d cur + 1" by (simp add: d'_def)
  have F4: "\<And>x. x \<in> set q0 \<Longrightarrow> d cur \<le> d x" using D(9) by auto
  have F5: "\<And>v. v \<in> V \<Longrightarrow> d v \<le> d cur + 1" using D(10)[of _ cur] by simp
  have proc: "\<And>u. u \<in> V' \<Longrightarrow> u \<notin> set q' \<Longrightarrow> u \<in> V \<and> u \<notin> set q0 \<and> (u = cur \<or> u \<notin> set (cur # q0))"
    using V'eq q' by auto
  have c1: "finite B" by (rule D(1))
  have c2: "st \<in> V'" using D(2) V'eq by simp
  have c3: "d' st = 0" using dV[OF D(2)] D(3) by simp
  have c4: "V' \<subseteq> B" using D(4) sub V' by auto
  have c5: "distinct q'" using dq0 dn q0V newsV q' by auto
  have c6: "set q' \<subseteq> V'" using q0V q' V'eq by auto
  have c7: "\<forall>v. v \<notin> V' \<or> v = st \<longrightarrow> par' v = None"
  proof (intro allI impI)
    fix v assume a: "v \<notin> V' \<or> v = st"
    have "v \<notin> set news"
    proof
      assume n: "v \<in> set news"
      then have "v \<in> V'" "v \<notin> V" using V'eq newsV by simp_all
      then show False using a D(2) by metis
    qed
    moreover have "v \<notin> V \<or> v = st" using a V'eq by auto
    then have "par v = None" by (rule D(7))
    ultimately show "par' v = None" by (simp add: par')
  qed
  have c8: "\<forall>v\<in>V'. v \<noteq> st \<longrightarrow>
        (\<exists>u. par' v = Some u \<and> u \<in> V' \<and> u \<notin> set q' \<and> v \<in> set (A u) \<and> d' v = d' u + 1)"
  proof (intro ballI impI)
    fix v assume v: "v \<in> V'" "v \<noteq> st"
    show "\<exists>u. par' v = Some u \<and> u \<in> V' \<and> u \<notin> set q' \<and> v \<in> set (A u) \<and> d' v = d' u + 1"
    proof (cases "v \<in> set news")
      case True
      have "par' v = Some cur \<and> cur \<in> V' \<and> cur \<notin> set q' \<and> v \<in> set (A cur) \<and> d' v = d' cur + 1"
        using True curV curq newsV[of cur] newsA[OF True] dN[OF True] dV[OF curV] V'eq q'
        by (auto simp: par')
      then show ?thesis by metis
    next
      case False
      then have vV: "v \<in> V" using v V'eq by simp
      from D(8)[OF vV v(2)] obtain u where
        u: "par v = Some u" "u \<in> V" "u \<notin> set (cur # q0)" "v \<in> set (A u)" "d v = d u + 1"
        by metis
      have "par' v = Some u \<and> u \<in> V' \<and> u \<notin> set q' \<and> v \<in> set (A u) \<and> d' v = d' u + 1"
        using False u newsV[of u] dV[OF vV] dV[OF u(2)] V'eq q' by (auto simp: par')
      then show ?thesis by metis
    qed
  qed
  have c9: "sorted (map d' q')"
  proof -
    have e: "map d' q0 = map d q0" using dV q0V by auto
    have "sorted (map d q0)" using D(9) by simp
    then have "sorted (map d' q0)" unfolding e .
    moreover have "sorted (map d' news)" using dN by (rule sorted_map_const)
    moreover have "\<forall>x\<in>set q0. \<forall>y\<in>set news. d' x \<le> d' y"
      using dN dV F5 q0V by (metis subsetD)
    ultimately show ?thesis unfolding q' by (auto simp: sorted_append)
  qed
  have c10: "\<forall>v\<in>V'. \<forall>x\<in>set q'. d' v \<le> d' x + 1"
  proof (intro ballI)
    fix v x assume v: "v \<in> V'" and x: "x \<in> set q'"
    have xv: "d cur \<le> d' x"
    proof (cases "x \<in> set news")
      case True then show ?thesis using dN by simp
    next
      case False
      then have "x \<in> set q0" using x q' by simp
      then show ?thesis using F4 dV q0V by (metis subsetD)
    qed
    have "d' v \<le> d cur + 1"
    proof (cases "v \<in> set news")
      case True then show ?thesis using dN by simp
    next
      case False
      then have "v \<in> V" using v V'eq by simp
      then show ?thesis using F5 dV by simp
    qed
    then show "d' v \<le> d' x + 1" using xv by simp
  qed
  have c11: "\<forall>u\<in>V'. u \<notin> set q' \<longrightarrow>
        u \<notin> T \<and> (\<forall>x\<in>set q'. d' u \<le> d' x) \<and> (\<forall>v\<in>set (A u). v \<in> V' \<and> d' v \<le> d' u + 1)"
  proof (intro ballI impI conjI)
    fix u assume u: "u \<in> V'" "u \<notin> set q'"
    note pu = proc[OF u]
    then have uV: "u \<in> V" by simp
    show "u \<notin> T" using pu notT D(11)[OF uV] by metis
    show "d' u \<le> d' x" if x: "x \<in> set q'" for x
    proof (cases "x \<in> set news")
      case True
      have "d u \<le> d cur"
        using pu D(12)[OF uV, of cur] by (cases "u = cur") auto
      then show ?thesis using dN[OF True] dV[OF uV] by simp
    next
      case False
      then have xq: "x \<in> set q0" using x q' by simp
      have "d u \<le> d x"
      proof (cases "u = cur")
        case True then show ?thesis using F4[OF xq] by simp
      next
        case False
        then have "u \<notin> set (cur # q0)" using pu by simp
        then show ?thesis using D(12)[OF uV, of x] xq by simp
      qed
      then show ?thesis using dV[OF uV] dV[of x] xq q0V by auto
    qed
    show "v \<in> V'" if v: "v \<in> set (A u)" for v
    proof (cases "u = cur")
      case True then show ?thesis using v V' by simp
    next
      case False
      then have "u \<notin> set (cur # q0)" using pu by simp
      then show ?thesis using D(13)[OF uV _ v] V'eq by simp
    qed
    show "d' v \<le> d' u + 1" if v: "v \<in> set (A u)" for v
    proof (cases "u = cur")
      case True
      show ?thesis
      proof (cases "v \<in> set news")
        case True then show ?thesis using dN dV[OF uV] \<open>u = cur\<close> by simp
      next
        case False
        then have "v \<in> V" using v True sn by auto
        then show ?thesis using F5 dV dV[OF uV] True by simp
      qed
    next
      case False
      then have "u \<notin> set (cur # q0)" using pu by simp
      then have "v \<in> V \<and> d v \<le> d u + 1" using D(13)[OF uV _ v] by simp
      then show ?thesis using dV dV[OF uV] by simp
    qed
  qed
  have inv': "bfsInv A st T B d' q' V' par'"
    unfolding bfsInv_def using c1 c2 c3 c4 c5 c6 c7 c8 c9 c10 c11 by (intro conjI)
  have "card V' = card V + length news"
  proof -
    have "card (V \<union> set news) = card V + card (set news)"
      using finV newsV by (intro card_Un_disjoint) auto
    then show ?thesis using V'eq distinct_card[OF dn] by simp
  qed
  then have "card V' + length q0 = card V + length q'" using q' by simp
  with inv' show ?thesis by metis
qed

lemma bfsLoop_run:
  assumes graph: "\<And>p. p \<in> B \<Longrightarrow> neighbors g c r p = Inr (A p) \<and> set (A p) \<subseteq> B"
  shows "bfsInv A st T B d q V par \<Longrightarrow> card B + length q \<le> n + card V \<Longrightarrow>
     \<exists>res. bfsLoop n g c r T q V par = Some (Inr res) \<and>
        (\<forall>path. res = Some path \<longrightarrow> isWalk A path \<and> hd path = st \<and> last path \<in> T \<and>
             (\<forall>w. isWalk A w \<and> hd w = st \<and> last w \<in> T \<longrightarrow> length path \<le> length w))"
proof (induction n arbitrary: d q V par)
  case 0
  show ?case
  proof (cases q)
    case Nil
    then show ?thesis by simp
  next
    case (Cons cur q0)
    have "card V \<le> card B"
      using bfsInvD(1,4)[OF "0.prems"(1)] by (simp add: card_mono)
    then show ?thesis using "0.prems"(2) Cons by simp
  qed
next
  case (Suc n)
  show ?case
  proof (cases q)
    case Nil
    then show ?thesis by simp
  next
    case (Cons cur q0)
    note inv = Suc.prems(1)[unfolded Cons]
    note D = bfsInvD[OF inv]
    have curV: "cur \<in> V" using D(6) by simp
    then have curB: "cur \<in> B" using D(4) by auto
    show ?thesis
    proof (cases "cur \<in> T")
      case True
      from reconstruct_walk[OF inv curV, of "[]"] obtain p where
        p: "reconstruct par cur [] = Some p" "isWalk A p" "hd p = st" "last p = cur"
           "length p = d cur + 1"
        by auto
      have run: "bfsLoop (Suc n) g c r T q V par = Some (Inr (Some p))"
        using True p(1) Cons by simp
      have best: "length p \<le> length w" if w: "isWalk A w \<and> hd w = st \<and> last w \<in> T" for w
      proof -
        from walk_frontier[OF inv, of w] w
        have "(last w \<in> V \<and> last w \<notin> set (cur # q0) \<and> d (last w) + 1 \<le> length w) \<or>
              (\<exists>x\<in>set (cur # q0). d x + 1 \<le> length w)"
          by simp
        then show ?thesis
        proof
          assume "last w \<in> V \<and> last w \<notin> set (cur # q0) \<and> d (last w) + 1 \<le> length w"
          then have "last w \<notin> T" using D(11) by metis
          then show ?thesis using w by simp
        next
          assume "\<exists>x\<in>set (cur # q0). d x + 1 \<le> length w"
          then obtain x where x: "x \<in> set (cur # q0)" "d x + 1 \<le> length w" by metis
          have "d cur \<le> d x" using D(9) x(1) by auto
          then show ?thesis using x(2) p(5) by simp
        qed
      qed
      show ?thesis
        using run p True best by (intro exI[of _ "Some p"]) simp
    next
      case False
      have nb: "neighbors g c r cur = Inr (A cur)" and sub: "set (A cur) \<subseteq> B"
        using graph[OF curB] by simp_all
      obtain V' par' q' where va: "visitAll cur (A cur) (V, par, q0) = (V', par', q')"
        by (metis prod_cases3)
      from bfsInv_step[OF inv False sub va] obtain d' where
        inv': "bfsInv A st T B d' q' V' par'" and
        cnt: "card V' + length q0 = card V + length q'"
        by metis
      have fuel: "card B + length q' \<le> n + card V'"
        using Suc.prems(2) cnt Cons by simp
      have run: "bfsLoop (Suc n) g c r T q V par = bfsLoop n g c r T q' V' par'"
        using False nb va Cons by simp
      show ?thesis unfolding run by (rule Suc.IH[OF inv' fuel])
    qed
  qed
qed

lemma bfsLoop_mono:
  "bfsLoop n g c r T q V par = Some res \<Longrightarrow> bfsLoop (n + k) g c r T q V par = Some res"
proof (induction n arbitrary: q V par)
  case 0
  then show ?case by (cases q) simp_all
next
  case (Suc n)
  show ?case
  proof (cases q)
    case Nil
    then show ?thesis using Suc.prems by simp
  next
    case (Cons cur q0)
    show ?thesis
    proof (cases "cur \<in> T")
      case True
      then show ?thesis using Suc.prems Cons by simp
    next
      case False
      show ?thesis
      proof (cases "neighbors g c r cur")
        case (Inl e)
        then show ?thesis using Suc.prems Cons False by simp
      next
        case (Inr ns)
        obtain V' par' q' where va: "visitAll cur ns (V, par, q0) = (V', par', q')"
          by (metis prod_cases3)
        have "bfsLoop n g c r T q' V' par' = Some res"
          using Suc.prems Cons False Inr va by simp
        from Suc.IH[OF this] show ?thesis
          using Cons False Inr va by simp
      qed
    qed
  qed
qed

lemma filterE_pure:
  "(\<And>a. a \<in> set as \<Longrightarrow> p a = Inr (q a)) \<Longrightarrow> filterE p as = Inr (filter q as)"
  by (induction as) auto

lemma candidates_inGrid:
  "inGrid c r p \<Longrightarrow> q \<in> set (candidates c r p) \<Longrightarrow> inGrid c r q"
  by (auto simp: candidates_def inGrid_def Let_def split: if_splits)

lemma gridIsOne_wf:
  assumes "wfGrid grid c r" "inGrid c r q"
  shows "gridIsOne (Some grid) q = Inr (grid ! nat (snd q) ! nat (fst q) = 1)"
proof -
  have a: "nat (snd q) < length grid"
    using assms by (auto simp: wfGrid_def inGrid_def)
  then have "int (length (grid ! nat (snd q))) = c"
    using assms(1) by (simp add: wfGrid_def list_all_length)
  then show ?thesis
    using assms by (auto simp: gridIsOne_def wfGrid_def inGrid_def Let_def)
qed

lemma neighbors_wf:
  assumes "wfGrid grid c r" "inGrid c r p"
  shows "neighbors (Some grid) c r p = Inr (adj grid c r p)"
    and "set (adj grid c r p) \<subseteq> Collect (inGrid c r)"
proof -
  show "neighbors (Some grid) c r p = Inr (adj grid c r p)"
    unfolding neighbors_def adj_def
    by (rule filterE_pure) (simp add: gridIsOne_wf[OF assms(1) candidates_inGrid[OF assms(2)]])
  show "set (adj grid c r p) \<subseteq> Collect (inGrid c r)"
    using candidates_inGrid[OF assms(2)] by (auto simp: adj_def)
qed

lemma inGrid_cells: "Collect (inGrid c r) = {0..<c} \<times> {0..<r}"
  by (auto simp: inGrid_def)

lemma finite_inGrid: "finite (Collect (inGrid c r))"
  by (simp add: inGrid_cells)

lemma card_inGrid: "card (Collect (inGrid c r)) = nat c * nat r"
  by (simp add: inGrid_cells card_cartesian_product)

lemma bfsInv_init:
  assumes "inGrid c r st"
  shows "bfsInv A st T (Collect (inGrid c r)) (\<lambda>v. 0) [st] {st} Map.empty"
  unfolding bfsInv_def using assms finite_inGrid[of c r] by simp

lemma bfsWorker_run:
  assumes "wfBfsRequest req" and "nat (b_cols req) * nat (b_rows req) \<le> n"
  shows "\<exists>res. bfsWorker n req = Some (Inr (Result res)) \<and>
        (\<forall>path. res = Some path \<longrightarrow> bfsWalk req path \<and> last path \<in> bfsTargets req \<and>
             (\<forall>w. bfsWalk req w \<and> last w \<in> bfsTargets req \<longrightarrow> length path \<le> length w))"
proof -
  from assms(1) obtain grid st where
    g: "b_grid req = Some grid" and s: "b_start req = Some st" and
    cmd: "b_cmd req = ''bfs-deadend''" and
    wg: "wfGrid grid (b_cols req) (b_rows req)" and ig: "inGrid (b_cols req) (b_rows req) st"
    by (auto simp: wfBfsRequest_def split: option.splits)
  let ?B = "Collect (inGrid (b_cols req) (b_rows req))"
  let ?A = "adj grid (b_cols req) (b_rows req)"
  have graph: "\<And>p. p \<in> ?B \<Longrightarrow>
      neighbors (Some grid) (b_cols req) (b_rows req) p = Inr (?A p) \<and> set (?A p) \<subseteq> ?B"
    using neighbors_wf[OF wg] by simp
  have fuel: "card ?B + length [st] \<le> n + card {st}"
    using assms(2) by (simp add: card_inGrid)
  from bfsLoop_run[of ?B "Some grid" "b_cols req" "b_rows req" ?A, OF graph
      bfsInv_init[OF ig] fuel, of "bfsTargets req"]
  obtain res where
    r: "bfsLoop n (Some grid) (b_cols req) (b_rows req) (bfsTargets req) [st] {st} Map.empty =
          Some (Inr res)" and
    ok: "\<forall>path. res = Some path \<longrightarrow> isWalk ?A path \<and> hd path = st \<and> last path \<in> bfsTargets req \<and>
             (\<forall>w. isWalk ?A w \<and> hd w = st \<and> last w \<in> bfsTargets req \<longrightarrow> length path \<le> length w)"
    by blast
  have "bfsWorker n req = Some (Inr (Result res))"
    using r g s cmd by (simp add: bfsWorker_def bfsTargets_def)
  moreover have "\<forall>path. res = Some path \<longrightarrow> bfsWalk req path \<and> last path \<in> bfsTargets req \<and>
             (\<forall>w. bfsWalk req w \<and> last w \<in> bfsTargets req \<longrightarrow> length path \<le> length w)"
    using ok g s by (simp add: bfsWalk_def)
  ultimately show ?thesis by blast
qed

lemma bfsWorker_mono:
  "bfsWorker n req = Some res \<Longrightarrow> bfsWorker (n + k) req = Some res"
proof -
  assume a: "bfsWorker n req = Some res"
  show ?thesis
  proof (cases "b_cmd req \<noteq> ''bfs-deadend'' \<or> b_grid req = None \<or> b_start req = None")
    case True
    then show ?thesis using a by (auto simp: bfsWorker_def Let_def)
  next
    case False
    let ?l = "\<lambda>m. bfsLoop m (b_grid req) (b_cols req) (b_rows req)
        (set (case b_deadEnds req of None \<Rightarrow> [] | Some ds \<Rightarrow> ds))
        [the (b_start req)] {the (b_start req)} Map.empty"
    have w: "\<And>m. bfsWorker m req =
        (case ?l m of None \<Rightarrow> None | Some (Inl e) \<Rightarrow> Some (Inl e)
         | Some (Inr path) \<Rightarrow> Some (Inr (Result path)))"
      using False by (auto simp: bfsWorker_def Let_def)
    from a obtain x where x: "?l n = Some x"
      unfolding w by (cases "?l n") simp_all
    have y: "?l (n + k) = Some x" by (rule bfsLoop_mono[OF x])
    show ?thesis using a unfolding w x y .
  qed
qed

text \<open>
  \<^bold>\<open>C10\<close>. On every well-formed request, whatever the target set, the breadth-first
  search posts a result (a path or \<^verbatim>\<open>null\<close>, no exception) within a budget of
  \<open>cols * rows\<close> dequeues.
\<close>

theorem bfsWorker_terminates:
  assumes "wfBfsRequest req"
  shows "\<exists>res. bfsWorker (nat (b_cols req * b_rows req)) req = Some (Inr (Result res))"
proof -
  have "0 \<le> b_cols req" "0 \<le> b_rows req"
    using assms by (auto simp: wfBfsRequest_def inGrid_def split: option.splits)
  then have "nat (b_cols req) * nat (b_rows req) \<le> nat (b_cols req * b_rows req)"
    by (simp add: nat_mult_distrib)
  from bfsWorker_run[OF assms this] show ?thesis by blast
qed

theorem bfsWorker_terminates_witness:
  "wfBfsRequest bfsReq5 \<and>
   (\<exists>res. bfsWorker (nat (b_cols bfsReq5 * b_rows bfsReq5)) bfsReq5 = Some (Inr (Result res)))"
proof -
  have h: "wfBfsRequest bfsReq5" by code_simp
  show ?thesis using bfsWorker_terminates[OF h] h by simp
qed

text \<open>
  \<^bold>\<open>C7\<close>. On a well-formed request, a path posted by the breadth-first search is a walk
  from the start over walkable cells that ends in a target, no walk from the start to any
  target is shorter, and when the start is itself a target the path is the start alone.
\<close>

theorem bfsWorker_nearest:
  assumes "wfBfsRequest req"
    and "bfsWorker fuel req = Some (Inr (Result (Some path)))"
  shows "bfsWalk req path \<and> last path \<in> bfsTargets req \<and>
         (\<forall>w. bfsWalk req w \<and> last w \<in> bfsTargets req \<longrightarrow> length path \<le> length w) \<and>
         (the (b_start req) \<in> bfsTargets req \<longrightarrow> path = [the (b_start req)])"
proof -
  let ?n = "fuel + nat (b_cols req) * nat (b_rows req)"
  have big: "bfsWorker ?n req = Some (Inr (Result (Some path)))"
    by (rule bfsWorker_mono[OF assms(2)])
  from bfsWorker_run[OF assms(1), of ?n] big
  have main: "bfsWalk req path \<and> last path \<in> bfsTargets req \<and>
         (\<forall>w. bfsWalk req w \<and> last w \<in> bfsTargets req \<longrightarrow> length path \<le> length w)"
    by simp
  have "path = [the (b_start req)]" if t: "the (b_start req) \<in> bfsTargets req"
  proof -
    have "bfsWalk req [the (b_start req)]" by (simp add: bfsWalk_def)
    then have "length path \<le> 1" using main t by fastforce
    moreover have "path \<noteq> []" "hd path = the (b_start req)"
      using main by (auto simp: bfsWalk_def)
    ultimately show ?thesis by (cases path) auto
  qed
  with main show ?thesis by blast
qed

theorem bfsWorker_nearest_witness:
  "wfBfsRequest bfsReq5 \<and>
   bfsWorker 25 bfsReq5 = Some (Inr (Result (Some path5))) \<and>
   bfsWalk bfsReq5 path5 \<and>
   last path5 \<in> bfsTargets bfsReq5 \<and>
   \<not> (\<exists>w. bfsWalk bfsReq5 w \<and> last w \<in> bfsTargets bfsReq5 \<and> length w < length path5)"
proof -
  have h1: "wfBfsRequest bfsReq5" by code_simp
  have h2: "bfsWorker 25 bfsReq5 = Some (Inr (Result (Some path5)))"
    by code_simp
  note t = bfsWorker_nearest[OF h1 h2]
  have "\<not> (\<exists>w. bfsWalk bfsReq5 w \<and> last w \<in> bfsTargets bfsReq5 \<and> length w < length path5)"
    using t by (metis leD)
  with h1 h2 t show ?thesis by simp
qed

section \<open>Malformed search requests\<close>

lemma bfsWorker_guard:
  "b_cmd req = ''bfs-deadend'' \<Longrightarrow> b_grid req = None \<or> b_start req = None \<Longrightarrow>
     bfsWorker fuel req = Some (Inr (Result None))"
  by (auto simp: bfsWorker_def Let_def)

lemma astarWorker_no_start:
  "a_cmd req = ''astar'' \<Longrightarrow> a_start req = None \<Longrightarrow> astarWorker req = Inl TypeError"
  by (simp add: astarWorker_def)

text \<open>
  \<^bold>\<open>C5\<close>. The breadth-first worker answers a request without a start with a
  \<^verbatim>\<open>null\<close> path before any dequeue; the A* worker has no such guard and throws on
  \<^verbatim>\<open>start.x\<close>.
\<close>

theorem astarWorker_missing_start_throws:
  "bfsWorker 0 bfsNoStart = Some (Inr (Result None)) \<and> astarWorker astarNoStart = Inl TypeError"
  by code_simp


section \<open>Properties of the A* search\<close>

lemma mset_swapAt:
  "i < length xs \<Longrightarrow> j < length xs \<Longrightarrow> mset (swapAt xs i j) = mset xs"
  unfolding swapAt_def by (rule mset_swap)

lemma mset_siftUp: "i < length a \<Longrightarrow> mset (siftUp a i) = mset a"
proof (induction a i rule: siftUp.induct)
  case (1 a i)
  show ?case
  proof (cases "i > 0 \<and> nodeF (a ! i) < nodeF (a ! ((i - 1) div 2))")
    case True
    then have p: "(i - 1) div 2 < length a" using "1.prems" by simp
    have "siftUp a i = siftUp (swapAt a i ((i - 1) div 2)) ((i - 1) div 2)"
      using True by (subst siftUp.simps) (simp add: Let_def)
    moreover have "mset (siftUp (swapAt a i ((i - 1) div 2)) ((i - 1) div 2)) =
        mset (swapAt a i ((i - 1) div 2))"
      using "1.IH"[OF _ refl] True p by simp
    ultimately show ?thesis using mset_swapAt[OF "1.prems" p] by simp
  next
    case False
    then have "siftUp a i = a" by (subst siftUp.simps) (auto simp: Let_def)
    then show ?thesis by simp
  qed
qed

lemma mset_siftDown: "mset (siftDown a i) = mset a"
proof (induction a i rule: siftDown.induct)
  case (1 a i)
  show ?case
  proof (cases "minChild a i = i")
    case True
    then have "siftDown a i = a" by (subst siftDown.simps) (simp add: Let_def)
    then show ?thesis by simp
  next
    case False
    then have b: "i < minChild a i" "minChild a i < length a"
      using minChild_bounds[of a i] by simp_all
    have "siftDown a i = siftDown (swapAt a i (minChild a i)) (minChild a i)"
      using False by (subst siftDown.simps) (simp add: Let_def)
    moreover have "mset (siftDown (swapAt a i (minChild a i)) (minChild a i)) =
        mset (swapAt a i (minChild a i))"
      using "1.IH"[OF refl False] by simp
    ultimately show ?thesis using mset_swapAt[of i a "minChild a i"] b by simp
  qed
qed

lemma mset_pqPush: "mset (pqPush a x) = add_mset x (mset a)"
  by (simp add: pqPush_def mset_siftUp)

lemma mset_pqPop:
  assumes "pqPop a = Some (r, a')"
  shows "mset a = add_mset r (mset a')"
proof -
  have ne: "a \<noteq> []" using assms by (auto simp: pqPop_def)
  then have r: "r = a ! 0" using assms by (auto simp: pqPop_def Let_def split: if_splits)
  have al: "a = butlast a @ [last a]" using ne by simp
  show ?thesis
  proof (cases "butlast a = []")
    case True
    then have "a' = []" using assms ne by (auto simp: pqPop_def Let_def)
    moreover have "a = [r]" using True al r by (metis append_Nil nth_Cons_0)
    ultimately show ?thesis by simp
  next
    case False
    then have a': "a' = siftDown ((butlast a)[0 := last a]) 0"
      using assms ne by (auto simp: pqPop_def Let_def)
    have l0: "0 < length (butlast a)" using False by (cases "butlast a") simp_all
    then have b0: "butlast a ! 0 = r" using r by (simp only: nth_butlast)
    have "mset a' = mset ((butlast a)[0 := last a])" unfolding a' by (rule mset_siftDown)
    also have "\<dots> = add_mset (last a) (mset (butlast a) - {#r#})"
      using mset_update[OF l0, of "last a"] b0 by simp
    finally have e: "mset a' = add_mset (last a) (mset (butlast a) - {#r#})" .
    have "r \<in># mset (butlast a)" using nth_mem_mset[OF l0] b0 by simp
    then have "add_mset r (mset (butlast a) - {#r#}) = mset (butlast a)" by simp
    then have "add_mset r (mset a') = add_mset (last a) (mset (butlast a))"
      unfolding e by (simp add: add_mset_commute)
    also have "\<dots> = mset (butlast a @ [last a])" by simp
    also have "\<dots> = mset a" using al by simp
    finally show ?thesis by simp
  qed
qed

lemma set_pqPush: "set (pqPush a x) = insert x (set a)"
  using mset_pqPush[of a x] by (metis set_mset_add_mset_insert set_mset_mset)

lemma set_pqPop:
  assumes "pqPop a = Some (r, a')"
  shows "r \<in> set a" and "set a' \<subseteq> set a"
proof -
  have "set_mset (mset a) = set_mset (add_mset r (mset a'))"
    using mset_pqPop[OF assms] by simp
  then have "set a = insert r (set a')" by simp
  then show "r \<in> set a" and "set a' \<subseteq> set a" by auto
qed

lemma nodePath_child:
  "nodePath (Node x y g f (Some cur)) = nodePath cur @ [(x, y)]"
  by simp

lemma nodePath_nonempty: "nodePath nd \<noteq> []"
  by (cases nd) simp

lemma goodNode_child:
  assumes "goodNode A st B cur" and "nb \<in> set (A (nodeX cur, nodeY cur))" and "nb \<in> B"
  shows "goodNode A st B (Node (fst nb) (snd nb) g f (Some cur))"
  using assms nodePath_nonempty[of cur]
  by (simp add: goodNode_def isWalk_snoc)

lemma relax_good:
  assumes cur: "goodNode A st B cur"
    and sub: "set (A (nodeX cur, nodeY cur)) \<subseteq> B"
  shows "set nbs \<subseteq> set (A (nodeX cur, nodeY cur)) \<Longrightarrow> \<forall>nd\<in>set pq. goodNode A st B nd \<Longrightarrow>
     relax e cur nbs (opn, pq) = (opn', pq') \<Longrightarrow> \<forall>nd\<in>set pq'. goodNode A st B nd"
proof (induction nbs arbitrary: opn pq)
  case Nil
  then show ?case by simp
next
  case (Cons nb nbs)
  have nbA: "nb \<in> set (A (nodeX cur, nodeY cur))" and rest: "set nbs \<subseteq> set (A (nodeX cur, nodeY cur))"
    using Cons.prems(1) by simp_all
  let ?nd = "Node (fst nb) (snd nb) (nodeG cur + 1) (nodeG cur + 1 + h nb e) (Some cur)"
  have gn: "goodNode A st B ?nd"
    using goodNode_child[OF cur nbA] nbA sub by auto
  show ?case
  proof (cases "case opn nb of None \<Rightarrow> True | Some existing \<Rightarrow> nodeG cur + 1 < nodeG existing")
    case True
    then have "relax e cur nbs (opn(nb \<mapsto> ?nd), pqPush pq ?nd) = (opn', pq')"
      using Cons.prems(3) by (simp add: Let_def)
    moreover have "\<forall>nd\<in>set (pqPush pq ?nd). goodNode A st B nd"
      using Cons.prems(2) gn by (simp add: set_pqPush)
    ultimately show ?thesis using Cons.IH[OF rest] by blast
  next
    case False
    then have "relax e cur nbs (opn, pq) = (opn', pq')"
      using Cons.prems(3) by (simp add: Let_def)
    then show ?thesis using Cons.IH[OF rest Cons.prems(2)] by blast
  qed
qed

lemma astarLoop_unreachable:
  assumes graph: "\<And>p. p \<in> B \<Longrightarrow> neighbors g c r p = Inr (A p) \<and> set (A p) \<subseteq> B"
    and unreach: "\<not> (\<exists>w. isWalk A w \<and> hd w = st \<and> last w = e)"
  shows "\<forall>nd\<in>set pq. goodNode A st B nd \<Longrightarrow>
     \<exists>k. astarLoop n g c r e opn pq = Inr (None, k) \<and> k \<le> n"
proof (induction n arbitrary: opn pq)
  case 0
  then show ?case by simp
next
  case (Suc n)
  show ?case
  proof (cases "pqPop pq")
    case None
    then show ?thesis by simp
  next
    case (Some a)
    obtain cur pq1 where a: "a = (cur, pq1)" by (cases a)
    note pop = Some[unfolded a]
    have gc: "goodNode A st B cur" using Suc.prems set_pqPop(1)[OF pop] by blast
    have g1: "\<forall>nd\<in>set pq1. goodNode A st B nd" using Suc.prems set_pqPop(2)[OF pop] by blast
    have ne: "\<not> (nodeX cur = fst e \<and> nodeY cur = snd e)"
    proof
      assume "nodeX cur = fst e \<and> nodeY cur = snd e"
      then have "last (nodePath cur) = e" using gc by (simp add: goodNode_def)
      then show False using gc unreach by (auto simp: goodNode_def)
    qed
    have cb: "(nodeX cur, nodeY cur) \<in> B" using gc by (simp add: goodNode_def)
    note gr = graph[OF cb]
    obtain opn' pq' where rl: "relax e cur (A (nodeX cur, nodeY cur)) (opn, pq1) = (opn', pq')"
      by (cases "relax e cur (A (nodeX cur, nodeY cur)) (opn, pq1)")
    have g2: "\<forall>nd\<in>set pq'. goodNode A st B nd"
      using relax_good[OF gc _ _ g1 rl] gr by simp
    from Suc.IH[OF g2, of opn'] obtain k where
      k: "astarLoop n g c r e opn' pq' = Inr (None, k)" "k \<le> n" by blast
    have "astarLoop (Suc n) g c r e opn pq = Inr (None, Suc k)"
      using pop ne gr rl k(1) by simp
    then show ?thesis using k(2) by simp
  qed
qed

lemma goodNode_start:
  "st \<in> B \<Longrightarrow> goodNode A st B (Node (fst st) (snd st) 0 f None)"
  by (simp add: goodNode_def)

text \<open>
  \<^bold>\<open>C8\<close>. On a well-formed request whose goal cannot be reached from the start by any
  walk over walkable cells, the A* search posts a \<^verbatim>\<open>null\<close> path, throws nothing, and has
  popped and expanded at most \<open>10 * cols * rows\<close> entries when it does.
\<close>

theorem astarWorker_unreachable:
  assumes "wfAstarRequest req"
    and "\<not> (\<exists>w. astarWalk req w \<and> last w = the (a_end req))"
  shows "\<exists>k. astarWorker req = Inr (Result None, k) \<and> k \<le> nat (10 * a_cols req * a_rows req)"
proof -
  from assms(1) obtain grid st e where
    g: "a_grid req = Some grid" and s: "a_start req = Some st" and en: "a_end req = Some e" and
    cmd: "a_cmd req = ''astar''" and
    wg: "wfGrid grid (a_cols req) (a_rows req)" and ig: "inGrid (a_cols req) (a_rows req) st"
    by (auto simp: wfAstarRequest_def split: option.splits)
  let ?B = "Collect (inGrid (a_cols req) (a_rows req))"
  let ?A = "adj grid (a_cols req) (a_rows req)"
  let ?sn = "Node (fst st) (snd st) 0 (h st e) None"
  have graph: "\<And>p. p \<in> ?B \<Longrightarrow>
      neighbors (Some grid) (a_cols req) (a_rows req) p = Inr (?A p) \<and> set (?A p) \<subseteq> ?B"
    using neighbors_wf[OF wg] by simp
  have un: "\<not> (\<exists>w. isWalk ?A w \<and> hd w = st \<and> last w = e)"
    using assms(2) g s en by (simp add: astarWalk_def)
  have "\<forall>nd\<in>set (pqPush [] ?sn). goodNode ?A st ?B nd"
    using goodNode_start[of st ?B ?A] ig by (simp add: set_pqPush)
  from astarLoop_unreachable[of ?B "Some grid" "a_cols req" "a_rows req" ?A st e, OF graph un this,
      of "nat (a_cols req * a_rows req * 10)" "[st \<mapsto> ?sn]"]
  obtain k where
    k: "astarLoop (nat (a_cols req * a_rows req * 10)) (Some grid) (a_cols req) (a_rows req) e
          [st \<mapsto> ?sn] (pqPush [] ?sn) = Inr (None, k)"
       "k \<le> nat (a_cols req * a_rows req * 10)"
    by blast
  have "astarWorker req = Inr (Result None, k)"
    using k(1) g s en cmd by (simp add: astarWorker_def Let_def)
  moreover have "a_cols req * a_rows req * 10 = 10 * a_cols req * a_rows req" by simp
  ultimately show ?thesis using k(2) by metis
qed

lemma isWalk_last_adj:
  "isWalk A w \<Longrightarrow> length w > 1 \<Longrightarrow> \<exists>u. last w \<in> set (A u)"
  by (induction A w rule: isWalk.induct) auto

lemma astarWall5_unreachable:
  "\<not> (\<exists>w. astarWalk astarWall5 w \<and> last w = the (a_end astarWall5))"
proof
  assume "\<exists>w. astarWalk astarWall5 w \<and> last w = the (a_end astarWall5)"
  then obtain w where w: "isWalk (adj grid5 5 5) w" "hd w = (1, 1)" "last w = (0, 0)"
    by (auto simp: astarWalk_def astarWall5_def astarReq5_def)
  show False
  proof (cases "length w > 1")
    case True
    from isWalk_last_adj[OF w(1) True] obtain u where "last w \<in> set (adj grid5 5 5 u)" by blast
    then show False using w(3) by (simp add: adj_def grid5_def)
  next
    case False
    then have "w = [hd w]" using w(1) by (cases w) auto
    then have "last w = hd w" by (metis last.simps)
    then show False using w(2,3) by simp
  qed
qed

theorem astarWorker_unreachable_witness:
  "wfAstarRequest astarWall5 \<and>
   \<not> (\<exists>w. astarWalk astarWall5 w \<and> last w = the (a_end astarWall5)) \<and>
   (\<exists>k. astarWorker astarWall5 = Inr (Result None, k) \<and>
        k \<le> nat (10 * a_cols astarWall5 * a_rows astarWall5))"
proof -
  have h1: "wfAstarRequest astarWall5" by code_simp
  show ?thesis
    using astarWorker_unreachable[OF h1 astarWall5_unreachable] h1 astarWall5_unreachable
    by simp
qed


section \<open>Properties of the maze generator\<close>

lemma getCell_setCell:
  assumes "getCell m x y = Inr c"
  shows "getCell (setCell m x y c') a b =
           (if a = x \<and> b = y then Inr c' else getCell m a b)"
proof -
  have y: "0 \<le> y" "nat y < length m" and x: "0 \<le> x" "nat x < length (m ! nat y)"
    using assms by (auto simp: getCell_def split: if_splits)
  let ?r = "(m ! nat y)[nat x := c']"
  have len: "length (setCell m x y c') = length m" by (simp add: setCell_def)
  show ?thesis
  proof (cases "0 \<le> b \<and> b < int (length m)")
    case False
    then have "getCell (setCell m x y c') a b = Inl TypeError" "getCell m a b = Inl TypeError"
      "b \<noteq> y"
      using y len by (auto simp: getCell_def)
    then show ?thesis by simp
  next
    case True
    then have b: "nat b < length m" by (simp add: nat_less_iff)
    show ?thesis
    proof (cases "b = y")
      case eqy: True
      have row: "setCell m x y c' ! nat b = ?r"
        using y by (simp add: setCell_def eqy)
      have g: "getCell (setCell m x y c') a b =
          (if 0 \<le> a \<and> a < int (length (m ! nat y)) then Inr (?r ! nat a) else Inl TypeError)"
        using True len row by (simp add: getCell_def eqy)
      have g0: "getCell m a b =
          (if 0 \<le> a \<and> a < int (length (m ! nat y)) then Inr (m ! nat y ! nat a) else Inl TypeError)"
        using True by (simp add: getCell_def eqy)
      show ?thesis
      proof (cases "0 \<le> a \<and> a < int (length (m ! nat y))")
        case False
        then have "a \<noteq> x" using x by auto
        then show ?thesis using g g0 False by simp
      next
        case ia: True
        then have "(nat x = nat a) = (a = x)" using x by auto
        then have "?r ! nat a = (if a = x then c' else m ! nat y ! nat a)"
          using x by (simp add: nth_list_update)
        then show ?thesis using g g0 ia by (simp add: eqy)
      qed
    next
      case False
      then have "nat b \<noteq> nat y" using True y by arith
      then have "setCell m x y c' ! nat b = m ! nat b"
        by (simp add: setCell_def)
      then show ?thesis using False len by (simp add: getCell_def)
    qed
  qed
qed

lemma plainGrid_path: "pathClosed (plainGrid C R)"
  unfolding pathClosed_def
proof (intro allI impI)
  fix m x y c
  assume p: "plainGrid C R m" and g: "getCell m x y = Inr c"
  have y: "nat y < length m" and x: "nat x < length (m ! nat y)" and c: "c = m ! nat y ! nat x"
    using g by (auto simp: getCell_def split: if_splits)
  have rows: "\<And>i. i < length m \<Longrightarrow> int (length (m ! i)) = C"
    and cells: "\<And>i j. i < length m \<Longrightarrow> j < length (m ! i) \<Longrightarrow> \<not> filled (m ! i ! j)"
    using p by (auto simp: plainGrid_def list_all_length)
  have "\<not> filled c" using cells[OF y x] c by simp
  then show "plainGrid C R (setCell m x y (c\<lparr>ctype := Path\<rparr>))"
    using p y x rows cells
    by (auto simp: plainGrid_def list_all_length setCell_def nth_list_update)
qed

lemma isPath_iff: "isPath m x y \<longleftrightarrow> (\<exists>c. getCell m x y = Inr c \<and> ctype c = Path)"
  by (auto simp: isPath_def split: sum.splits)

lemma isPath_mono: "pathClosed (\<lambda>m. isPath m a b)"
  unfolding pathClosed_def isPath_iff
  by (auto simp: getCell_setCell)

lemma setPath_closed:
  "pathClosed P \<Longrightarrow> P m \<Longrightarrow> setPath m x y = Inr m' \<Longrightarrow> P m'"
  by (auto simp: pathClosed_def setPath_def split: sum.splits)

lemma setPath_isPath: "setPath m x y = Inr m' \<Longrightarrow> isPath m' x y"
  by (auto simp: setPath_def isPath_iff getCell_setCell split: sum.splits)

lemma tryCarve_closed:
  assumes "pathClosed P"
  shows "P m \<Longrightarrow> tryCarve C R m cx cy ds = Inr (Some (m', n)) \<Longrightarrow> P m'"
proof (induction ds)
  case Nil
  then show ?case by simp
next
  case (Cons d ds)
  show ?case
  proof (cases "tryCarve C R m cx cy (d # ds) = tryCarve C R m cx cy ds")
    case True
    then show ?thesis using Cons by simp
  next
    case False
    then obtain mid c' where
      mid: "getCell m (cx + fst d div 2) (cy + snd d div 2) = Inr mid" and
      c': "getCell (setCell m (cx + fst d div 2) (cy + snd d div 2) (mid\<lparr>ctype := Path\<rparr>))
             (cx + fst d) (cy + snd d) = Inr c'" and
      m': "m' = setCell (setCell m (cx + fst d div 2) (cy + snd d div 2) (mid\<lparr>ctype := Path\<rparr>))
             (cx + fst d) (cy + snd d) (c'\<lparr>ctype := Path\<rparr>)"
      using Cons.prems(2) by (auto simp: Let_def split: sum.splits if_splits)
    have "P (setCell m (cx + fst d div 2) (cy + snd d div 2) (mid\<lparr>ctype := Path\<rparr>))"
      using assms Cons.prems(1) mid unfolding pathClosed_def by blast
    then show ?thesis using assms c' unfolding pathClosed_def m' by blast
  qed
qed

lemma carveLoop_closed:
  assumes "pathClosed P"
  shows "P m \<Longrightarrow> carveLoop C R rnd k m stack = Inr (m', k') \<Longrightarrow> P m'"
proof (induction C R rnd k m stack rule: carveLoop.induct)
  case (1 C R rnd k m stack)
  show ?case
  proof (cases stack)
    case Nil
    then show ?thesis using "1.prems" by (simp add: carveLoop.simps)
  next
    case (Cons cur rest)
    show ?thesis
    proof (cases "tryCarve C R m (fst cur) (snd cur) (shuffledDirs rnd k)")
      case (Inl e)
      then show ?thesis using "1.prems" Cons by (simp add: carveLoop.simps)
    next
      case (Inr res)
      show ?thesis
      proof (cases res)
        case None
        then have "carveLoop C R rnd (k + 3) m rest = Inr (m', k')"
          using "1.prems"(2) Cons Inr by (simp add: carveLoop.simps)
        then show ?thesis using "1.IH"(1)[OF Cons Inr None "1.prems"(1)] by simp
      next
        case (Some a)
        obtain m1 n where a: "a = (m1, n)" by (cases a)
        have r: "carveLoop C R rnd (k + 3) m1 (n # stack) = Inr (m', k')"
          using "1.prems"(2) Cons Inr Some a by (simp add: carveLoop.simps)
        have "P m1" using tryCarve_closed[OF assms "1.prems"(1)] Inr Some a by simp
        then show ?thesis using "1.IH"(2)[OF Cons Inr Some a[symmetric] _ r] by simp
      qed
    qed
  qed
qed

lemma injectExtras_closed:
  assumes "pathClosed P"
  shows "P m \<Longrightarrow> injectExtras i C R pct rnd k m = Inr m' \<Longrightarrow> P m'"
proof (induction i arbitrary: k m)
  case 0
  then show ?case by simp
next
  case (Suc i)
  let ?rx = "1 + int (rnd k mod nat (C - 2))" and ?ry = "1 + int (rnd (k + 1) mod nat (R - 2))"
  show ?case
  proof (cases "rnd (k + 2) mod 100 < pct")
    case False
    then have "injectExtras i C R pct rnd (k + 3) m = Inr m'"
      using Suc.prems(2) by (simp add: Let_def)
    then show ?thesis using Suc.IH[OF Suc.prems(1)] by simp
  next
    case True
    then obtain c where c: "getCell m ?rx ?ry = Inr c" and
      r: "injectExtras i C R pct rnd (k + 3) (setCell m ?rx ?ry (c\<lparr>ctype := Path\<rparr>)) = Inr m'"
      using Suc.prems(2) by (auto simp: Let_def split: sum.splits)
    have "P (setCell m ?rx ?ry (c\<lparr>ctype := Path\<rparr>))"
      using assms Suc.prems(1) c unfolding pathClosed_def by blast
    then show ?thesis using Suc.IH[OF _ r] by simp
  qed
qed

lemma generate_steps:
  assumes "generateMazeIterative diff rnd s0 = Inr s"
  shows "\<exists>maze1 maze2 k maze3 maze4 maze5 s1.
     setPath (replicate (nat (oddSize (rows s0))) (replicate (nat (oddSize (cols s0))) (MazeCell Wall)))
        1 1 = Inr maze1 \<and>
     carveLoop (oddSize (cols s0)) (oddSize (rows s0)) rnd 0 maze1 [(1, 1)] = Inr (maze2, k) \<and>
     injectExtras (nat ((oddSize (cols s0) * oddSize (rows s0) * extraPct diff) div 100))
        (oddSize (cols s0)) (oddSize (rows s0)) (shufflePct diff) rnd k maze2 = Inr maze3 \<and>
     setPath maze3 1 1 = Inr maze4 \<and>
     setPath maze4 (oddSize (cols s0) - 2) (oddSize (rows s0) - 2) = Inr maze5 \<and>
     recomputeAllDeadEnds
       (s0\<lparr>cols := oddSize (cols s0), rows := oddSize (rows s0), start := (1, 1),
           endp := (oddSize (cols s0) - 2, oddSize (rows s0) - 2), maze := maze5\<rparr>) = Inr s1 \<and>
     updateHUD (s1\<lparr>player := (1, 1), visitedCount := 1, undoStack := [], score := 0\<rparr>) = Inr s"
  using assms unfolding generateMazeIterative_def Let_def
  by (simp split: sum.splits prod.splits)

lemma updateHUD_same: "updateHUD s = Inr s' \<Longrightarrow> s' = s"
  by (auto simp: updateHUD_def split: sum.splits)

lemma currentPathCount_wf:
  assumes "wf_state s"
  shows "\<exists>n. currentPathCount s = Inr n"
proof -
  have "countE (\<lambda>p. case getCell (maze s) (fst p) (snd p) of
                    Inl e \<Rightarrow> Inl e
                  | Inr c \<Rightarrow> Inr (ctype c = Path \<and> \<not> filled c))
            (allCoords (cols s) (rows s)) =
        Inr (length (filter (\<lambda>p. ctype (cellAt s (fst p) (snd p)) = Path \<and>
                \<not> filled (cellAt s (fst p) (snd p))) (allCoords (cols s) (rows s))))"
  proof (rule countE_pure)
    fix a assume "a \<in> set (allCoords (cols s) (rows s))"
    then have "inBounds s (fst a) (snd a)"
      using in_allCoords[of "fst a" "snd a"] by (simp add: inBounds_def)
    then show "(case getCell (maze s) (fst a) (snd a) of
                    Inl e \<Rightarrow> Inl e
                  | Inr c \<Rightarrow> Inr (ctype c = Path \<and> \<not> filled c)) =
       Inr (ctype (cellAt s (fst a) (snd a)) = Path \<and> \<not> filled (cellAt s (fst a) (snd a)))"
      using getCell_wf[OF assms] by simp
  qed
  then show ?thesis by (simp add: currentPathCount_def)
qed

lemma updateHUD_wf: "wf_state s \<Longrightarrow> updateHUD s = Inr s"
  using currentPathCount_wf[of s] by (auto simp: updateHUD_def)

lemma plainGrid_replicate:
  "0 \<le> C \<Longrightarrow> 0 \<le> R \<Longrightarrow> plainGrid C R (replicate (nat R) (replicate (nat C) (MazeCell Wall)))"
  by (simp add: plainGrid_def list_all_length MazeCell_def)

lemma setPath_replicate_bounds:
  assumes "setPath (replicate (nat R) (replicate (nat C) c0)) 1 1 = Inr m"
  shows "2 \<le> C \<and> 2 \<le> R"
proof -
  from assms obtain c where "getCell (replicate (nat R) (replicate (nat C) c0)) 1 1 = Inr c"
    by (auto simp: setPath_def split: sum.splits)
  then show ?thesis by (auto simp: getCell_def split: if_splits)
qed

lemma oddSize_ge3: "2 \<le> oddSize n \<Longrightarrow> 3 \<le> oddSize n"
  unfolding oddSize_def by presburger

lemma plainGrid_state:
  assumes "plainGrid (cols s) (rows s) (maze s)"
  shows "wf_state s" and "noFilled s"
  using assms by (auto simp: plainGrid_def wf_state_def noFilled_def list_all_iff)

lemma isPath_cellAt:
  "isPath (maze s) x y \<Longrightarrow> ctype (cellAt s x y) = Path"
  by (auto simp: isPath_iff getCell_def cellAt_def split: if_splits)

lemma gridEq_cong:
  assumes "gridEq s s'"
  shows "inBounds s' x y = inBounds s x y"
    and "cellAt s' x y = cellAt s x y"
    and "walkable s' x y = walkable s x y"
    and "isDeadEndSpec s' x y = isDeadEndSpec s x y"
    and "wf_state s' = wf_state s"
    and "noFilled s' = noFilled s"
    and "flagsOK s' = flagsOK s"
    and "sameFrame s s'"
proof -
  show ib: "\<And>x y. inBounds s' x y = inBounds s x y"
    using assms by (simp add: gridEq_def inBounds_def)
  show ca: "\<And>x y. cellAt s' x y = cellAt s x y"
    using assms by (simp add: gridEq_def cellAt_def)
  show wk: "\<And>x y. walkable s' x y = walkable s x y"
    by (simp add: walkable_def ib ca)
  show ds: "\<And>x y. isDeadEndSpec s' x y = isDeadEndSpec s x y"
    using assms by (simp add: isDeadEndSpec_def wk ca gridEq_def)
  show "wf_state s' = wf_state s" using assms by (simp add: gridEq_def wf_state_def)
  show "noFilled s' = noFilled s" using assms by (simp add: gridEq_def noFilled_def)
  show "flagsOK s' = flagsOK s" by (simp add: flagsOK_def ib ca ds)
  show "sameFrame s s'" using assms by (simp add: sameFrame_def ca gridEq_def)
qed

lemma generate_playable:
  assumes "generateMazeIterative diff rnd s0 = Inr s"
  shows "wf_state s \<and> noFilled s \<and> flagsOK s \<and> player s = (1, 1) \<and> start s = (1, 1) \<and>
         endp s = (cols s - 2, rows s - 2) \<and> walkable s 1 1 \<and> undoStack s = [] \<and>
         3 \<le> cols s \<and> 3 \<le> rows s \<and> cols s = oddSize (cols s0) \<and> rows s = oddSize (rows s0)"
proof -
  let ?C = "oddSize (cols s0)" and ?R = "oddSize (rows s0)"
  let ?sA = "\<lambda>m. s0\<lparr>cols := ?C, rows := ?R, start := (1, 1), endp := (?C - 2, ?R - 2), maze := m\<rparr>"
  from generate_steps[OF assms] obtain maze1 maze2 k maze3 maze4 maze5 s1 where
    m1: "setPath (replicate (nat ?R) (replicate (nat ?C) (MazeCell Wall))) 1 1 = Inr maze1" and
    m2: "carveLoop ?C ?R rnd 0 maze1 [(1, 1)] = Inr (maze2, k)" and
    m3: "injectExtras (nat ((?C * ?R * extraPct diff) div 100)) ?C ?R (shufflePct diff) rnd k maze2
           = Inr maze3" and
    m4: "setPath maze3 1 1 = Inr maze4" and
    m5: "setPath maze4 (?C - 2) (?R - 2) = Inr maze5" and
    rc: "recomputeAllDeadEnds (?sA maze5) = Inr s1" and
    hud: "updateHUD (s1\<lparr>player := (1, 1), visitedCount := 1, undoStack := [], score := 0\<rparr>) = Inr s"
    by blast
  have b2: "2 \<le> ?C \<and> 2 \<le> ?R" by (rule setPath_replicate_bounds[OF m1])
  then have b3: "3 \<le> ?C" "3 \<le> ?R" using oddSize_ge3 by simp_all
  have pc: "pathClosed (plainGrid ?C ?R)" by (rule plainGrid_path)
  have p0: "plainGrid ?C ?R (replicate (nat ?R) (replicate (nat ?C) (MazeCell Wall)))"
    using b2 by (intro plainGrid_replicate) simp_all
  have p1: "plainGrid ?C ?R maze1" by (rule setPath_closed[OF pc p0 m1])
  have p2: "plainGrid ?C ?R maze2" by (rule carveLoop_closed[OF pc p1 m2])
  have p3: "plainGrid ?C ?R maze3" by (rule injectExtras_closed[OF pc p2 m3])
  have p4: "plainGrid ?C ?R maze4" by (rule setPath_closed[OF pc p3 m4])
  have p5: "plainGrid ?C ?R maze5" by (rule setPath_closed[OF pc p4 m5])
  have i5: "isPath maze5 1 1"
    by (rule setPath_closed[OF isPath_mono setPath_isPath[OF m4] m5])
  have wfA: "wf_state (?sA maze5)" and nfA: "noFilled (?sA maze5)"
    using plainGrid_state[of "?sA maze5"] p5 by simp_all
  from recomputeAll_agrees[OF wfA nfA] rc obtain n m where
    fr: "sameFrame (?sA maze5) s1" and wf1: "wf_state s1" and
    s1: "s1 = (?sA maze5)\<lparr>originalPathCount := n, maze := m\<rparr>" and
    fl: "\<forall>x y. inBounds s1 x y \<longrightarrow> deadEnd (cellAt s1 x y) = isDeadEndSpec s1 x y"
    by auto
  let ?s = "s1\<lparr>player := (1, 1), visitedCount := 1, undoStack := [], score := 0\<rparr>"
  have s: "s = ?s" using updateHUD_same[OF hud] .
  have ge: "gridEq s1 ?s" by (simp add: gridEq_def)
  note cg = gridEq_cong[OF ge]
  have in11: "inBounds (?sA maze5) 1 1" using b2 by (simp add: inBounds_def)
  have "ctype (cellAt (?sA maze5) 1 1) = Path" using isPath_cellAt[of "?sA maze5" 1 1] i5 by simp
  then have c11: "ctype (cellAt s1 1 1) = Path" and f11: "\<not> filled (cellAt s1 1 1)"
    using fr in11 noFilled_cellAt[OF wfA nfA in11] by (simp_all add: sameFrame_def)
  have nf1: "noFilled s1"
  proof -
    have "\<And>i j. i < length (maze s1) \<Longrightarrow> j < length (maze s1 ! i) \<Longrightarrow> \<not> filled (maze s1 ! i ! j)"
    proof -
      fix i j assume i: "i < length (maze s1)" and j: "j < length (maze s1 ! i)"
      have "int (length (maze s1)) = ?R" "int (length (maze s1 ! i)) = ?C"
        using wf1 i s1 by (simp_all add: wf_state_iff)
      then have ib: "inBounds (?sA maze5) (int j) (int i)"
        using i j by (simp add: inBounds_def)
      have "filled (cellAt s1 (int j) (int i)) = filled (cellAt (?sA maze5) (int j) (int i))"
        using fr ib by (simp add: sameFrame_def)
      then show "\<not> filled (maze s1 ! i ! j)"
        using noFilled_cellAt[OF wfA nfA ib] by (simp add: cellAt_def)
    qed
    then show ?thesis by (simp add: noFilled_def list_all_length)
  qed
  have "wf_state s" unfolding s cg(5) by (rule wf1)
  moreover have "noFilled s" unfolding s cg(6) by (rule nf1)
  moreover have "flagsOK s" unfolding s cg(7) using fl by (simp add: flagsOK_def)
  moreover have "player s = (1, 1)" "start s = (1, 1)" "undoStack s = []"
    "endp s = (cols s - 2, rows s - 2)" "cols s = ?C" "rows s = ?R"
    using s s1 by simp_all
  moreover have "walkable s 1 1"
    unfolding s cg(3) using c11 f11 in11 s1 by (simp add: walkable_def inBounds_def)
  ultimately show ?thesis using b3 by simp
qed


section \<open>Undo and the incremental dead-end flags\<close>

lemma fillAt_props:
  assumes "wf_state s" "inBounds s fx fy"
  shows "wf_state (fillAt b fx fy s)"
    and "\<And>x y. inBounds (fillAt b fx fy s) x y = inBounds s x y"
    and "\<And>x y. inBounds s x y \<Longrightarrow> cellAt (fillAt b fx fy s) x y =
           (if x = fx \<and> y = fy then (cellAt s fx fy)\<lparr>filled := b\<rparr> else cellAt s x y)"
    and "cols (fillAt b fx fy s) = cols s" "rows (fillAt b fx fy s) = rows s"
        "start (fillAt b fx fy s) = start s" "endp (fillAt b fx fy s) = endp s"
  using assms by (simp_all add: fillAt_def wf_setCell cellAt_setCell)

lemma walkable_fillAt:
  assumes "wf_state s" "inBounds s fx fy"
  shows "walkable (fillAt b fx fy s) x y =
     (if x = fx \<and> y = fy then ctype (cellAt s fx fy) = Path \<and> \<not> b else walkable s x y)"
  using fillAt_props(2,3)[OF assms, where b = b] assms(2) by (auto simp: walkable_def)

lemma in_nearCells:
  "(x, y) \<in> set (nearCells fx fy) \<longleftrightarrow>
     (x = fx \<and> (y = fy \<or> y = fy + 1 \<or> y = fy - 1 \<or> y = fy + 2 \<or> y = fy - 2)) \<or>
     (y = fy \<and> (x = fx + 1 \<or> x = fx - 1 \<or> x = fx + 2 \<or> x = fx - 2))"
  by (auto simp: nearCells_def nearOffsets_def)

lemma spec_local:
  assumes wf: "wf_state s" and f: "inBounds s fx fy" and p: "inBounds s x y"
    and far: "(x, y) \<notin> set (nearCells fx fy)"
  shows "isDeadEndSpec (fillAt b fx fy s) x y = isDeadEndSpec s x y"
proof -
  have c: "cellAt (fillAt b fx fy s) x y = cellAt s x y"
    using fillAt_props(3)[OF wf f p, where b = b] far by (auto simp: in_nearCells)
  have "\<And>d. d \<in> set dirs4 \<Longrightarrow>
      walkable (fillAt b fx fy s) (x + fst d) (y + snd d) = walkable s (x + fst d) (y + snd d)"
    using far unfolding walkable_fillAt[OF wf f] by (auto simp: in_nearCells dirs4_def)
  then have "filter (\<lambda>d. walkable (fillAt b fx fy s) (x + fst d) (y + snd d)) dirs4 =
      filter (\<lambda>d. walkable s (x + fst d) (y + snd d)) dirs4"
    by (intro filter_cong) simp_all
  then show ?thesis
    by (simp add: isDeadEndSpec_def c fillAt_props(6,7)[OF wf f, where b = b])
qed

lemma setFilled_flags:
  assumes wf: "wf_state s" and f: "inBounds s fx fy"
  shows "\<exists>m. setFilled b (Some (fx, fy)) s = Inr (s\<lparr>maze := m\<rparr>) \<and> wf_state (s\<lparr>maze := m\<rparr>) \<and>
     sameFrame (fillAt b fx fy s) (s\<lparr>maze := m\<rparr>) \<and>
     (\<forall>x y. inBounds s x y \<longrightarrow>
        deadEnd (cellAt (s\<lparr>maze := m\<rparr>) x y) =
          (if (x, y) \<in> set (nearCells fx fy) then isDeadEndSpec (fillAt b fx fy s) x y
           else deadEnd (cellAt s x y)))"
proof -
  let ?s1 = "fillAt b fx fy s"
  note fp = fillAt_props[OF wf f, where b = b]
  from recomputeDeadendsNear_flags[OF fp(1), of fx fy] obtain m where
    r: "recomputeDeadendsNear fx fy ?s1 = Inr (?s1\<lparr>maze := m\<rparr>)" and
    w: "wf_state (?s1\<lparr>maze := m\<rparr>)" and
    fr: "sameFrame ?s1 (?s1\<lparr>maze := m\<rparr>)" and
    fl: "\<forall>a b'. inBounds ?s1 a b' \<longrightarrow>
          deadEnd (cellAt (?s1\<lparr>maze := m\<rparr>) a b') =
            (if (a, b') \<in> set (nearCells fx fy) then isDeadEndSpec ?s1 a b'
             else deadEnd (cellAt ?s1 a b'))"
    by blast
  have e: "?s1\<lparr>maze := m\<rparr> = s\<lparr>maze := m\<rparr>" by (simp add: fillAt_def)
  have "setFilled b (Some (fx, fy)) s = Inr (s\<lparr>maze := m\<rparr>)"
    using r getCell_wf[OF wf f] unfolding e by (simp add: setFilled_def fillAt_def)
  moreover have "\<forall>x y. inBounds s x y \<longrightarrow>
        deadEnd (cellAt (s\<lparr>maze := m\<rparr>) x y) =
          (if (x, y) \<in> set (nearCells fx fy) then isDeadEndSpec ?s1 x y
           else deadEnd (cellAt s x y))"
  proof (intro allI impI)
    fix x y assume i: "inBounds s x y"
    have "deadEnd (cellAt ?s1 x y) = deadEnd (cellAt s x y)"
      using fp(3)[OF i] by simp
    then show "deadEnd (cellAt (s\<lparr>maze := m\<rparr>) x y) =
          (if (x, y) \<in> set (nearCells fx fy) then isDeadEndSpec ?s1 x y
           else deadEnd (cellAt s x y))"
      using fl i fp(2) unfolding e by simp
  qed
  ultimately show ?thesis using w fr unfolding e by blast
qed

lemma setFilled_flagsOK:
  assumes wf: "wf_state s" and f: "inBounds s fx fy"
    and far: "\<And>x y. inBounds s x y \<Longrightarrow> (x, y) \<notin> set (nearCells fx fy) \<Longrightarrow>
               deadEnd (cellAt s x y) = isDeadEndSpec s x y"
  shows "\<exists>m. setFilled b (Some (fx, fy)) s = Inr (s\<lparr>maze := m\<rparr>) \<and> wf_state (s\<lparr>maze := m\<rparr>) \<and>
     sameFrame (fillAt b fx fy s) (s\<lparr>maze := m\<rparr>) \<and> flagsOK (s\<lparr>maze := m\<rparr>)"
proof -
  let ?s1 = "fillAt b fx fy s"
  from setFilled_flags[OF wf f, where b = b] obtain m where
    r: "setFilled b (Some (fx, fy)) s = Inr (s\<lparr>maze := m\<rparr>)" and
    w: "wf_state (s\<lparr>maze := m\<rparr>)" and
    fr: "sameFrame ?s1 (s\<lparr>maze := m\<rparr>)" and
    fl: "\<forall>x y. inBounds s x y \<longrightarrow>
        deadEnd (cellAt (s\<lparr>maze := m\<rparr>) x y) =
          (if (x, y) \<in> set (nearCells fx fy) then isDeadEndSpec ?s1 x y
           else deadEnd (cellAt s x y))"
    by blast
  note fp = fillAt_props[OF wf f, where b = b]
  have "flagsOK (s\<lparr>maze := m\<rparr>)"
    unfolding flagsOK_def
  proof (intro allI impI)
    fix x y assume "inBounds (s\<lparr>maze := m\<rparr>) x y"
    then have i: "inBounds s x y" by simp
    then have i1: "inBounds ?s1 x y" using fp(2) by simp
    have sp: "isDeadEndSpec (s\<lparr>maze := m\<rparr>) x y = isDeadEndSpec ?s1 x y"
      by (rule isDeadEndSpec_frame[OF fr i1])
    show "deadEnd (cellAt (s\<lparr>maze := m\<rparr>) x y) = isDeadEndSpec (s\<lparr>maze := m\<rparr>) x y"
    proof (cases "(x, y) \<in> set (nearCells fx fy)")
      case True
      then show ?thesis using fl i sp by simp
    next
      case False
      then have "deadEnd (cellAt (s\<lparr>maze := m\<rparr>) x y) = deadEnd (cellAt s x y)"
        using fl i by simp
      also have "\<dots> = isDeadEndSpec s x y" by (rule far[OF i False])
      also have "\<dots> = isDeadEndSpec ?s1 x y" by (rule spec_local[OF wf f i False, symmetric])
      finally show ?thesis using sp by simp
    qed
  qed
  with r w fr show ?thesis by blast
qed

lemma sameFrame_sym: "sameFrame s s' \<Longrightarrow> sameFrame s' s"
  by (simp add: sameFrame_def inBounds_def)

lemma sameFrame_inBounds: "sameFrame s s' \<Longrightarrow> inBounds s' x y = inBounds s x y"
  by (simp add: sameFrame_def inBounds_def)

lemma sameFrame_fillAt:
  assumes "wf_state s" "wf_state s'" "sameFrame s s'" "inBounds s fx fy"
  shows "sameFrame (fillAt b fx fy s) (fillAt b fx fy s')"
proof -
  have f': "inBounds s' fx fy" using assms(3,4) by (simp add: sameFrame_inBounds)
  note a = fillAt_props[OF assms(1,4), where b = b]
  note a' = fillAt_props[OF assms(2) f', where b = b]
  show ?thesis
    unfolding sameFrame_def
  proof (intro conjI allI impI)
    fix x y assume "inBounds (fillAt b fx fy s) x y"
    then have i: "inBounds s x y" using a(2) by simp
    then have i': "inBounds s' x y" using assms(3) by (simp add: sameFrame_inBounds)
    show "ctype (cellAt (fillAt b fx fy s') x y) = ctype (cellAt (fillAt b fx fy s) x y)"
      using a(3)[OF i] a'(3)[OF i'] assms(3,4) i by (simp add: sameFrame_def)
    show "filled (cellAt (fillAt b fx fy s') x y) = filled (cellAt (fillAt b fx fy s) x y)"
      using a(3)[OF i] a'(3)[OF i'] assms(3,4) i by (simp add: sameFrame_def)
  qed (use a a' assms(3) in \<open>simp_all add: sameFrame_def\<close>)
qed

lemma okStack_frame:
  "wf_state s \<Longrightarrow> wf_state s' \<Longrightarrow> sameFrame s s' \<Longrightarrow> okStack s' st = okStack s st"
proof (induction st arbitrary: s s')
  case Nil
  then show ?case by simp
next
  case (Cons snap rest)
  show ?case
  proof (cases "snapFilled snap")
    case None
    then show ?thesis
      using Cons.IH[OF Cons.prems] walkable_frame[OF Cons.prems(3)] by simp
  next
    case (Some f)
    have ib: "inBounds s' (fst f) (snd f) = inBounds s (fst f) (snd f)"
      using Cons.prems(3) by (simp add: sameFrame_inBounds)
    show ?thesis
    proof (cases "inBounds s (fst f) (snd f)")
      case False
      then show ?thesis using Some ib by simp
    next
      case True
      then have t': "inBounds s' (fst f) (snd f)" using ib by simp
      have "okStack (fillAt False (fst f) (snd f) s') rest =
            okStack (fillAt False (fst f) (snd f) s) rest"
        by (rule Cons.IH[OF fillAt_props(1)[OF Cons.prems(1) True]
              fillAt_props(1)[OF Cons.prems(2) t']
              sameFrame_fillAt[OF Cons.prems True]])
      moreover have "ctype (cellAt s' (fst f) (snd f)) = ctype (cellAt s (fst f) (snd f))"
        using Cons.prems(3) True by (simp add: sameFrame_def)
      ultimately show ?thesis using Some ib by simp
    qed
  qed
qed

lemma unfill_refill:
  assumes wf: "wf_state s" and wf3: "wf_state s3" and f: "inBounds s fx fy"
    and fr: "sameFrame (fillAt True fx fy s) s3" and nf: "\<not> filled (cellAt s fx fy)"
  shows "sameFrame s (fillAt False fx fy s3)"
proof -
  note a = fillAt_props[OF wf f, where b = True]
  have f3: "inBounds s3 fx fy" using fr a(2) f by (simp add: sameFrame_inBounds)
  note a3 = fillAt_props[OF wf3 f3, where b = False]
  show ?thesis
    unfolding sameFrame_def
  proof (intro conjI allI impI)
    fix x y assume i: "inBounds s x y"
    then have i1: "inBounds (fillAt True fx fy s) x y" using a(2) by simp
    then have i3: "inBounds s3 x y" using fr by (simp add: sameFrame_inBounds)
    have c: "ctype (cellAt s3 x y) = ctype (cellAt (fillAt True fx fy s) x y)"
            "filled (cellAt s3 x y) = filled (cellAt (fillAt True fx fy s) x y)"
      using fr i1 by (simp_all add: sameFrame_def)
    show "ctype (cellAt (fillAt False fx fy s3) x y) = ctype (cellAt s x y)"
      using a3(3)[OF i3] a(3)[OF i] c by auto
    show "filled (cellAt (fillAt False fx fy s3) x y) = filled (cellAt s x y)"
      using a3(3)[OF i3] a(3)[OF i] c nf by auto
  qed (use a a3 fr in \<open>simp_all add: sameFrame_def\<close>)
qed

lemma moved_props:
  assumes wf: "wf_state s" and d: "inBounds s nx ny"
  shows "wf_state (moved ev nx ny fl s)"
    and "sameFrame s (moved ev nx ny fl s)"
    and "undoStack (moved ev nx ny fl s) =
           \<lparr>prevX = fst (player s), prevY = snd (player s), snapFilled = fl\<rparr> # undoStack s"
    and "player (moved ev nx ny fl s) = (nx, ny)"
    and "\<And>x y. inBounds s x y \<Longrightarrow> deadEnd (cellAt (moved ev nx ny fl s) x y) =
           (deadEnd (cellAt s x y) \<and> \<not> ((x, y) = (nx, ny) \<and> (nx, ny) \<noteq> start s \<and> (nx, ny) \<noteq> endp s))"
proof -
  let ?s1 = "s\<lparr>undoStack := \<lparr>prevX = fst (player s), prevY = snd (player s), snapFilled = fl\<rparr>
                               # undoStack s,
                 player := (nx, ny),
                 visitedCount := visitedCount s + 1,
                 score := score s + 1\<rparr>"
  let ?sf = "flagged s nx ny False (originalPathCount s)"
  note fp = flagged_props[OF wf d, where b = False and n = "originalPathCount s"]
  show "undoStack (moved ev nx ny fl s) =
           \<lparr>prevX = fst (player s), prevY = snd (player s), snapFilled = fl\<rparr> # undoStack s"
    and "player (moved ev nx ny fl s) = (nx, ny)"
    by (simp_all add: moved_def Let_def)
  have main: "wf_state (moved ev nx ny fl s) \<and> sameFrame s (moved ev nx ny fl s) \<and>
      (\<forall>x y. inBounds s x y \<longrightarrow> deadEnd (cellAt (moved ev nx ny fl s) x y) =
           (deadEnd (cellAt s x y) \<and> \<not> ((x, y) = (nx, ny) \<and> (nx, ny) \<noteq> start s \<and> (nx, ny) \<noteq> endp s)))"
  proof (cases "deadEnd (cellAt s nx ny) \<and> (nx, ny) \<noteq> start s \<and> (nx, ny) \<noteq> endp s")
    case True
    have "moved ev nx ny fl s =
        ?s1\<lparr>score := score ?s1 + deadBonus (diffValue ev),
            maze := setCell (maze ?s1) nx ny ((cellAt s nx ny)\<lparr>deadEnd := False\<rparr>)\<rparr>"
      by (simp only: moved_def Let_def if_P[OF True])
    then have ge: "gridEq ?sf (moved ev nx ny fl s)"
      by (simp add: gridEq_def flagged_def)
    note cg = gridEq_cong[OF ge]
    have "wf_state (moved ev nx ny fl s)" unfolding cg(5) by (rule fp(1))
    moreover have "sameFrame s (moved ev nx ny fl s)" by (rule sameFrame_trans[OF fp(2) cg(8)])
    moreover have "\<forall>x y. inBounds s x y \<longrightarrow> deadEnd (cellAt (moved ev nx ny fl s) x y) =
           (deadEnd (cellAt s x y) \<and> \<not> ((x, y) = (nx, ny) \<and> (nx, ny) \<noteq> start s \<and> (nx, ny) \<noteq> endp s))"
      unfolding cg(2) using fp(3) True by auto
    ultimately show ?thesis by simp
  next
    case False
    have "moved ev nx ny fl s = ?s1"
      by (simp only: moved_def Let_def if_not_P[OF False])
    then have ge: "gridEq s (moved ev nx ny fl s)"
      by (simp add: gridEq_def)
    note cg = gridEq_cong[OF ge]
    have "wf_state (moved ev nx ny fl s)" unfolding cg(5) by (rule wf)
    moreover have "sameFrame s (moved ev nx ny fl s)" by (rule cg(8))
    moreover have "\<forall>x y. inBounds s x y \<longrightarrow> deadEnd (cellAt (moved ev nx ny fl s) x y) =
           (deadEnd (cellAt s x y) \<and> \<not> ((x, y) = (nx, ny) \<and> (nx, ny) \<noteq> start s \<and> (nx, ny) \<noteq> endp s))"
      unfolding cg(2) using False by auto
    ultimately show ?thesis by simp
  qed
  show "wf_state (moved ev nx ny fl s)" and "sameFrame s (moved ev nx ny fl s)"
    using main by simp_all
  show "\<And>x y. inBounds s x y \<Longrightarrow> deadEnd (cellAt (moved ev nx ny fl s) x y) =
           (deadEnd (cellAt s x y) \<and> \<not> ((x, y) = (nx, ny) \<and> (nx, ny) \<noteq> start s \<and> (nx, ny) \<noteq> endp s))"
    using main by simp
qed

lemma applyMove_eq:
  assumes wf: "wf_state s" and d: "inBounds s nx ny"
    and p: "revChecked ev \<or> inBounds s (fst (player s)) (snd (player s))"
  shows "applyMove ev nx ny s =
     setFilled True
       (if \<not> revChecked ev \<and> walkable s (fst (player s)) (snd (player s))
        then Some (fst (player s), snd (player s)) else None)
       (moved ev nx ny
          (if \<not> revChecked ev \<and> walkable s (fst (player s)) (snd (player s))
           then Some (fst (player s), snd (player s)) else None) s)"
proof -
  have g: "getCell (maze s) nx ny = Inr (cellAt s nx ny)" by (rule getCell_wf[OF wf d])
  show ?thesis
  proof (cases "revChecked ev")
    case True
    then show ?thesis
      using g by (simp add: applyMove_def moved_def Let_def prod_eq_iff)
  next
    case False
    then have "inBounds s (fst (player s)) (snd (player s))" using p by simp
    then have "getCell (maze s) (fst (player s)) (snd (player s)) =
        Inr (cellAt s (fst (player s)) (snd (player s)))"
      by (rule getCell_wf[OF wf])
    then show ?thesis
      using g False \<open>inBounds s (fst (player s)) (snd (player s))\<close>
      by (simp add: applyMove_def moved_def Let_def prod_eq_iff walkable_def)
  qed
qed

lemma unit_near:
  "d \<in> set dirs4 \<Longrightarrow> (px + fst d, py + snd d) \<in> set (nearCells px py) \<and>
     (px + fst d, py + snd d) \<noteq> (px, py)"
  by (auto simp: dirs4_def in_nearCells)

lemma applyMove_fill:
  assumes wf: "wf_state s" and pw: "walkable s (fst (player s)) (snd (player s))"
    and d: "inBounds s nx ny" and near: "(nx, ny) \<in> set (nearCells (fst (player s)) (snd (player s)))"
    and norm: "\<not> revChecked ev"
  shows "\<exists>s3. applyMove ev nx ny s = Inr s3 \<and> wf_state s3 \<and> player s3 = (nx, ny) \<and>
     undoStack s3 = \<lparr>prevX = fst (player s), prevY = snd (player s),
                      snapFilled = Some (fst (player s), snd (player s))\<rparr> # undoStack s \<and>
     sameFrame (fillAt True (fst (player s)) (snd (player s)) s) s3 \<and>
     (\<forall>x y. inBounds s x y \<longrightarrow> deadEnd (cellAt s3 x y) =
        (if (x, y) \<in> set (nearCells (fst (player s)) (snd (player s)))
         then isDeadEndSpec (fillAt True (fst (player s)) (snd (player s)) s) x y
         else deadEnd (cellAt s x y)))"
proof -
  let ?px = "fst (player s)" and ?py = "snd (player s)"
  let ?fl = "Some (?px, ?py)"
  let ?s2 = "moved ev nx ny ?fl s"
  have pi: "inBounds s ?px ?py" using pw by (simp add: walkable_def)
  note mp = moved_props[OF wf d, where ev = ev and fl = ?fl]
  have pi2: "inBounds ?s2 ?px ?py" using pi mp(2) by (simp add: sameFrame_inBounds)
  have am: "applyMove ev nx ny s = setFilled True ?fl ?s2"
    using applyMove_eq[OF wf d, of ev] pi pw norm by simp
  from setFilled_flags[OF mp(1) pi2, where b = True] obtain m where
    r: "setFilled True ?fl ?s2 = Inr (?s2\<lparr>maze := m\<rparr>)" and
    w: "wf_state (?s2\<lparr>maze := m\<rparr>)" and
    fr: "sameFrame (fillAt True ?px ?py ?s2) (?s2\<lparr>maze := m\<rparr>)" and
    fl: "\<forall>x y. inBounds ?s2 x y \<longrightarrow>
        deadEnd (cellAt (?s2\<lparr>maze := m\<rparr>) x y) =
          (if (x, y) \<in> set (nearCells ?px ?py) then isDeadEndSpec (fillAt True ?px ?py ?s2) x y
           else deadEnd (cellAt ?s2 x y))"
    by blast
  let ?s3 = "?s2\<lparr>maze := m\<rparr>"
  have f12: "sameFrame (fillAt True ?px ?py s) (fillAt True ?px ?py ?s2)"
    by (rule sameFrame_fillAt[OF wf mp(1) mp(2) pi])
  have fr3: "sameFrame (fillAt True ?px ?py s) ?s3" by (rule sameFrame_trans[OF f12 fr])
  have flags: "\<forall>x y. inBounds s x y \<longrightarrow> deadEnd (cellAt ?s3 x y) =
        (if (x, y) \<in> set (nearCells ?px ?py) then isDeadEndSpec (fillAt True ?px ?py s) x y
         else deadEnd (cellAt s x y))"
  proof (intro allI impI)
    fix x y assume i: "inBounds s x y"
    then have i2: "inBounds ?s2 x y" using mp(2) by (simp add: sameFrame_inBounds)
    have i1: "inBounds (fillAt True ?px ?py s) x y"
      using i fillAt_props(2)[OF wf pi] by simp
    show "deadEnd (cellAt ?s3 x y) =
        (if (x, y) \<in> set (nearCells ?px ?py) then isDeadEndSpec (fillAt True ?px ?py s) x y
         else deadEnd (cellAt s x y))"
    proof (cases "(x, y) \<in> set (nearCells ?px ?py)")
      case True
      then show ?thesis
        using fl i2 isDeadEndSpec_frame[OF f12 i1] by simp
    next
      case False
      then have "(x, y) \<noteq> (nx, ny)" using near by auto
      then have "deadEnd (cellAt ?s2 x y) = deadEnd (cellAt s x y)" using mp(5)[OF i] by auto
      then show ?thesis using fl i2 False by simp
    qed
  qed
  have "player ?s3 = (nx, ny)" using mp(4) by simp
  moreover have "undoStack ?s3 = \<lparr>prevX = ?px, prevY = ?py, snapFilled = ?fl\<rparr> # undoStack s"
    using mp(3) by simp
  ultimately show ?thesis using am r w fr3 flags by metis
qed

lemma applyMove_nofill:
  assumes wf: "wf_state s" and d: "inBounds s nx ny" and rev: "revChecked ev"
  shows "applyMove ev nx ny s = Inr (moved ev nx ny None s)"
  using applyMove_eq[OF wf d, of ev] rev by (simp add: setFilled_def)

lemma checkCompletion_other:
  "player s \<noteq> endp s \<Longrightarrow> checkCompletion ev s = Inr s"
  by (auto simp: checkCompletion_def prod_eq_iff)

lemma attemptMove_walkable:
  assumes wf: "wf_state s" and w: "walkable s (fst (player s) + dx) (snd (player s) + dy)"
    and a: "applyMove ev (fst (player s) + dx) (snd (player s) + dy) s = Inr s3" and w3: "wf_state s3"
  shows "attemptMove ev dx dy s = checkCompletion ev s3"
  using assms by (simp add: attemptMove_def isWalkable_wf updateHUD_wf Let_def)

lemma undo_nofill:
  assumes "wf_state s" and "undoStack s = snap # rest" and "snapFilled snap = None"
  shows "undo s = Inr (s\<lparr>undoStack := rest, player := (prevX snap, prevY snap)\<rparr>)"
proof -
  have "wf_state (s\<lparr>undoStack := rest, player := (prevX snap, prevY snap)\<rparr>)"
    using assms(1) by (simp add: wf_state_def)
  then show ?thesis
    using assms(2,3) by (simp add: undo_def setFilled_def updateHUD_wf)
qed

lemma undo_fill:
  assumes wf: "wf_state s" and st: "undoStack s = snap # rest"
    and fl: "snapFilled snap = Some (fx, fy)" and f: "inBounds s fx fy"
  shows "\<exists>s'. undo s = Inr s' \<and> wf_state s' \<and> player s' = (prevX snap, prevY snap) \<and>
     undoStack s' = rest \<and> sameFrame (fillAt False fx fy s) s' \<and>
     (\<forall>x y. inBounds s x y \<longrightarrow> deadEnd (cellAt s' x y) =
        (if (x, y) \<in> set (nearCells fx fy) then isDeadEndSpec (fillAt False fx fy s) x y
         else deadEnd (cellAt s x y)))"
proof -
  let ?s0 = "s\<lparr>undoStack := rest\<rparr>"
  have ge: "gridEq s ?s0" by (simp add: gridEq_def)
  note cg = gridEq_cong[OF ge]
  have wf0: "wf_state ?s0" unfolding cg(5) by (rule wf)
  have f0: "inBounds ?s0 fx fy" unfolding cg(1) by (rule f)
  from setFilled_flags[OF wf0 f0, where b = False] obtain m where
    r: "setFilled False (Some (fx, fy)) ?s0 = Inr (?s0\<lparr>maze := m\<rparr>)" and
    w: "wf_state (?s0\<lparr>maze := m\<rparr>)" and
    fr: "sameFrame (fillAt False fx fy ?s0) (?s0\<lparr>maze := m\<rparr>)" and
    fg: "\<forall>x y. inBounds ?s0 x y \<longrightarrow>
        deadEnd (cellAt (?s0\<lparr>maze := m\<rparr>) x y) =
          (if (x, y) \<in> set (nearCells fx fy) then isDeadEndSpec (fillAt False fx fy ?s0) x y
           else deadEnd (cellAt ?s0 x y))"
    by blast
  let ?s' = "?s0\<lparr>maze := m, player := (prevX snap, prevY snap)\<rparr>"
  have ge1: "gridEq (?s0\<lparr>maze := m\<rparr>) ?s'" by (simp add: gridEq_def)
  note cg1 = gridEq_cong[OF ge1]
  have gf: "gridEq (fillAt False fx fy s) (fillAt False fx fy ?s0)"
    by (simp add: gridEq_def fillAt_def cellAt_def)
  note cgf = gridEq_cong[OF gf]
  have w': "wf_state ?s'" unfolding cg1(5) by (rule w)
  have "undo s = Inr ?s'"
    using st fl r updateHUD_wf[OF w'] by (simp add: undo_def)
  moreover have "sameFrame (fillAt False fx fy s) ?s'"
    by (rule sameFrame_trans[OF cgf(8) sameFrame_trans[OF fr cg1(8)]])
  moreover have "\<forall>x y. inBounds s x y \<longrightarrow> deadEnd (cellAt ?s' x y) =
        (if (x, y) \<in> set (nearCells fx fy) then isDeadEndSpec (fillAt False fx fy s) x y
         else deadEnd (cellAt s x y))"
    using fg unfolding cg1(2) cg(1) cg(2) cgf(4) by simp
  moreover have "player ?s' = (prevX snap, prevY snap)" "undoStack ?s' = rest" by simp_all
  ultimately show ?thesis using w' by metis
qed

lemma flagsOK_after:
  assumes wf: "wf_state s" and ok: "flagsOK s" and f: "inBounds s fx fy"
    and fr: "sameFrame (fillAt b fx fy s) s'"
    and fl: "\<forall>x y. inBounds s x y \<longrightarrow> deadEnd (cellAt s' x y) =
        (if (x, y) \<in> set (nearCells fx fy) then isDeadEndSpec (fillAt b fx fy s) x y
         else deadEnd (cellAt s x y))"
  shows "flagsOK s'"
  unfolding flagsOK_def
proof (intro allI impI)
  fix x y assume "inBounds s' x y"
  then have i1: "inBounds (fillAt b fx fy s) x y" using fr by (simp add: sameFrame_inBounds)
  then have i: "inBounds s x y" using fillAt_props(2)[OF wf f] by simp
  have sp: "isDeadEndSpec s' x y = isDeadEndSpec (fillAt b fx fy s) x y"
    by (rule isDeadEndSpec_frame[OF fr i1])
  show "deadEnd (cellAt s' x y) = isDeadEndSpec s' x y"
  proof (cases "(x, y) \<in> set (nearCells fx fy)")
    case True
    then show ?thesis using fl i sp by simp
  next
    case False
    then have "deadEnd (cellAt s' x y) = deadEnd (cellAt s x y)" using fl i by simp
    also have "\<dots> = isDeadEndSpec s x y" using ok i by (simp add: flagsOK_def)
    also have "\<dots> = isDeadEndSpec (fillAt b fx fy s) x y"
      by (rule spec_local[OF wf f i False, symmetric])
    finally show ?thesis using sp by simp
  qed
qed

lemma playInv_fresh:
  "generateMazeIterative diff rnd s0 = Inr s \<Longrightarrow> playInv s"
  using generate_playable[of diff rnd s0 s] by (simp add: playInv_def)

lemma checkCompletion_cases:
  "checkCompletion ev s = Inr s' \<Longrightarrow>
     s' = s \<or> (\<exists>diff rnd s0. generateMazeIterative diff rnd s0 = Inr s')"
  by (auto simp: checkCompletion_def Let_def split: if_splits)

lemma playInv_completion:
  "playInv s \<Longrightarrow> checkCompletion ev s = Inr s' \<Longrightarrow> playInv s'"
  using checkCompletion_cases[of ev s s'] playInv_fresh by blast

lemma playInv_move:
  assumes inv: "playInv s" and unit: "(dx, dy) \<in> set dirs4"
    and nb: "\<not> bonusInReverse ev dx dy s"
    and mv: "attemptMove ev dx dy s = Inr s'"
  shows "playInv s'"
proof -
  let ?px = "fst (player s)" and ?py = "snd (player s)"
  let ?nx = "?px + dx" and ?ny = "?py + dy"
  have wf: "wf_state s" and ok: "flagsOK s" and pw: "walkable s ?px ?py"
    and st: "okStack s (undoStack s)"
    using inv by (simp_all add: playInv_def)
  show ?thesis
  proof (cases "walkable s ?nx ?ny")
    case False
    then have "s' = s" using mv by (simp add: attemptMove_def isWalkable_wf[OF wf])
    then show ?thesis using inv by simp
  next
    case w: True
    have d: "inBounds s ?nx ?ny" using w by (simp add: walkable_def)
    have pi: "inBounds s ?px ?py" and pnf: "\<not> filled (cellAt s ?px ?py)"
      and pp: "ctype (cellAt s ?px ?py) = Path"
      using pw by (simp_all add: walkable_def)
    have near: "(?nx, ?ny) \<in> set (nearCells ?px ?py)" and np: "(?nx, ?ny) \<noteq> (?px, ?py)"
      using unit_near[OF unit, of ?px ?py] by simp_all
    show ?thesis
    proof (cases "revChecked ev")
      case False
      from applyMove_fill[OF wf pw d near False] obtain s3 where
        a: "applyMove ev ?nx ?ny s = Inr s3" and w3: "wf_state s3" and p3: "player s3 = (?nx, ?ny)" and
        u3: "undoStack s3 = \<lparr>prevX = ?px, prevY = ?py, snapFilled = Some (?px, ?py)\<rparr> # undoStack s" and
        fr3: "sameFrame (fillAt True ?px ?py s) s3" and
        fl3: "\<forall>x y. inBounds s x y \<longrightarrow> deadEnd (cellAt s3 x y) =
          (if (x, y) \<in> set (nearCells ?px ?py) then isDeadEndSpec (fillAt True ?px ?py s) x y
           else deadEnd (cellAt s x y))"
        by blast
      have ib3: "\<And>x y. inBounds s3 x y = inBounds s x y"
        using fr3 fillAt_props(2)[OF wf pi] by (simp add: sameFrame_inBounds)
      have f3: "flagsOK s3" by (rule flagsOK_after[OF wf ok pi fr3 fl3])
      have "walkable s3 ?nx ?ny"
        unfolding walkable_frame[OF fr3] walkable_fillAt[OF wf pi] using np w by auto
      moreover have "okStack s3 (undoStack s3)"
      proof -
        have bk: "sameFrame s (fillAt False ?px ?py s3)"
          by (rule unfill_refill[OF wf w3 pi fr3 pnf])
        have pi3: "inBounds s3 ?px ?py" using pi ib3 by simp
        have "okStack (fillAt False ?px ?py s3) (undoStack s) = okStack s (undoStack s)"
          by (rule okStack_frame[OF wf fillAt_props(1)[OF w3 pi3] bk])
        moreover have "ctype (cellAt s3 ?px ?py) = Path"
          using fr3 fillAt_props(2,3)[OF wf pi, where b = True] pi pp
          by (simp add: sameFrame_def)
        ultimately show ?thesis using u3 pi3 st by simp
      qed
      ultimately have "playInv s3" using w3 f3 p3 by (simp add: playInv_def)
      then show ?thesis
        using playInv_completion[of s3 ev s'] attemptMove_walkable[OF wf w a w3] mv by simp
    next
      case True
      let ?s3 = "moved ev ?nx ?ny None s"
      note mp = moved_props[OF wf d, where ev = ev and fl = None]
      have a: "applyMove ev ?nx ?ny s = Inr ?s3" by (rule applyMove_nofill[OF wf d True])
      have nd: "\<not> deadEnd (cellAt s ?nx ?ny)"
        using nb True w by (simp add: bonusInReverse_def)
      have ib3: "\<And>x y. inBounds ?s3 x y = inBounds s x y"
        using mp(2) by (simp add: sameFrame_inBounds)
      have "flagsOK ?s3"
        unfolding flagsOK_def
      proof (intro allI impI)
        fix x y assume "inBounds ?s3 x y"
        then have i: "inBounds s x y" using ib3 by simp
        have "deadEnd (cellAt ?s3 x y) = deadEnd (cellAt s x y)"
          using mp(5)[OF i] nd by auto
        then show "deadEnd (cellAt ?s3 x y) = isDeadEndSpec ?s3 x y"
          using ok i isDeadEndSpec_frame[OF mp(2) i] by (simp add: flagsOK_def)
      qed
      moreover have "walkable ?s3 ?nx ?ny" "walkable ?s3 ?px ?py"
        unfolding walkable_frame[OF mp(2)] using w pw by simp_all
      moreover have "okStack ?s3 (undoStack s) = okStack s (undoStack s)"
        by (rule okStack_frame[OF wf mp(1) mp(2)])
      ultimately have "playInv ?s3"
        using mp(1,3,4) st by (simp add: playInv_def)
      then show ?thesis
        using playInv_completion[of ?s3 ev s'] attemptMove_walkable[OF wf w a mp(1)] mv by simp
    qed
  qed
qed

lemma playInv_undo:
  assumes inv: "playInv s" and un: "undo s = Inr s'"
  shows "playInv s'"
proof -
  have wf: "wf_state s" and ok: "flagsOK s" and st: "okStack s (undoStack s)"
    using inv by (simp_all add: playInv_def)
  show ?thesis
  proof (cases "undoStack s")
    case Nil
    then have "s' = s" using un by (simp add: undo_def)
    then show ?thesis using inv by simp
  next
    case (Cons snap rest)
    show ?thesis
    proof (cases "snapFilled snap")
      case None
      have e: "s' = s\<lparr>undoStack := rest, player := (prevX snap, prevY snap)\<rparr>"
        using undo_nofill[OF wf Cons None] un by simp
      have ge: "gridEq s s'" unfolding e by (simp add: gridEq_def)
      note cg = gridEq_cong[OF ge]
      have w': "wf_state s'" unfolding cg(5) by (rule wf)
      have "okStack s' rest = okStack s rest" by (rule okStack_frame[OF wf w' cg(8)])
      moreover have "walkable s (prevX snap) (prevY snap)" "okStack s rest"
        using st Cons None by simp_all
      moreover have "player s' = (prevX snap, prevY snap)" "undoStack s' = rest"
        unfolding e by simp_all
      ultimately show ?thesis
        using w' ok unfolding playInv_def cg(7) cg(3) by simp
    next
      case (Some f)
      have f: "f = (prevX snap, prevY snap)" "inBounds s (fst f) (snd f)"
        "ctype (cellAt s (fst f) (snd f)) = Path"
        "okStack (fillAt False (fst f) (snd f) s) rest"
        using st Cons Some by auto
      have sf: "snapFilled snap = Some (fst f, snd f)" using Some by simp
      from undo_fill[OF wf Cons sf f(2)] un obtain
        w': "wf_state s'" and p': "player s' = (prevX snap, prevY snap)" and
        u': "undoStack s' = rest" and
        fr: "sameFrame (fillAt False (fst f) (snd f) s) s'" and
        fl: "\<forall>x y. inBounds s x y \<longrightarrow> deadEnd (cellAt s' x y) =
          (if (x, y) \<in> set (nearCells (fst f) (snd f))
           then isDeadEndSpec (fillAt False (fst f) (snd f) s) x y
           else deadEnd (cellAt s x y))"
        by auto
      have "flagsOK s'" by (rule flagsOK_after[OF wf ok f(2) fr fl])
      moreover have "walkable s' (fst f) (snd f)"
        unfolding walkable_frame[OF fr] walkable_fillAt[OF wf f(2)] using f(3) by simp
      moreover have "okStack s' rest = okStack (fillAt False (fst f) (snd f) s) rest"
        by (rule okStack_frame[OF fillAt_props(1)[OF wf f(2)] w' fr])
      ultimately show ?thesis
        using w' p' u' f(1,4) by (simp add: playInv_def)
    qed
  qed
qed

lemma played_playInv: "played s \<Longrightarrow> playInv s"
proof (induction rule: played.induct)
  case (fresh diff rnd s0 s)
  then show ?case by (rule playInv_fresh)
next
  case (move s dx dy ev s')
  then show ?case using playInv_move by blast
next
  case (undone s s')
  then show ?case using playInv_undo by blast
qed


lemma played_gen5: "played gen5"
  by (rule played.fresh[OF gen5_generated])

lemma played_moved5: "played moved5"
proof (rule played.move[OF played_gen5 _ _ moved5_reached])
  show "(0, 1) \<in> set dirs4" by (simp add: dirs4_def)
  show "\<not> bonusInReverse env0 0 1 gen5" by (simp add: bonusInReverse_def env0_def)
qed

lemma stepped5_reached: "attemptMove envRev 1 0 played5 = Inr stepped5"
  by code_simp

text \<open>
  \<^bold>\<open>C1\<close> (as amended). After every sequence of unit-step \<^verbatim>\<open>attemptMove\<close> and \<^verbatim>\<open>undo\<close> calls
  on a freshly generated grid in which no reverse-mode move lands on a flagged dead end,
  the state is well formed and the cells with \<^verbatim>\<open>deadEnd\<close> set are exactly those that
  satisfy the dead-end definition on the resulting grid: path, not filled, exactly one
  4-neighbour that is path and not filled, neither start nor end.
\<close>

theorem local_recompute_matches_definition:
  assumes "played s"
  shows "wf_state s \<and> (\<forall>x y. inBounds s x y \<longrightarrow> deadEnd (cellAt s x y) = isDeadEndSpec s x y)"
  using played_playInv[OF assms] by (simp add: playInv_def flagsOK_def)

theorem local_recompute_matches_definition_witness:
  "played moved5 \<and> wf_state moved5 \<and> flagsOK moved5"
  using local_recompute_matches_definition[OF played_moved5] played_moved5
  by (simp add: flagsOK_def)

text \<open>
  \<^bold>\<open>C1\<close> as stated fails after a single move on the fresh grid \<open>gen5\<close>: the local
  recompute around the filled start flags \<open>(1, 2)\<close>, whose only unfilled path neighbour
  is \<open>(1, 3)\<close>, while \<^verbatim>\<open>recomputeAllDeadEnds\<close> on the resulting grid counts the filled
  start as a neighbour too and leaves \<open>(1, 2)\<close> unflagged.
\<close>

theorem local_recompute_counterexample:
  "attemptMove env0 0 1 gen5 = Inr moved5 \<and>
   recomputeAllDeadEnds moved5 = Inr moved5_full \<and>
   deadEnd (cellAt moved5 1 2) \<and> \<not> deadEnd (cellAt moved5_full 1 2)"
  by code_simp

text \<open>
  \<^bold>\<open>C4\<close> (as amended). On a well-formed state whose agent stands on a walkable cell, a
  unit-step \<^verbatim>\<open>attemptMove\<close> onto a walkable cell other than the end, followed at once by
  \<^verbatim>\<open>undo\<close>, succeeds and restores the agent position, the undo stack, and the type and
  \<^verbatim>\<open>filled\<close> flag of every cell. With reverse mode off, every cell within the recompute
  neighbourhood of the departed cell ends with \<^verbatim>\<open>deadEnd\<close> as the dead-end definition gives
  it on the restored grid and every other cell keeps its flag; with reverse mode on, every
  cell keeps its flag except a flagged destination (not the start), whose flag stays cleared.
\<close>

theorem attemptMove_undo_restores:
  assumes wf: "wf_state s"
    and pw: "walkable s (fst (player s)) (snd (player s))"
    and unit: "(dx, dy) \<in> set dirs4"
    and w: "walkable s (fst (player s) + dx) (snd (player s) + dy)"
    and ne: "(fst (player s) + dx, snd (player s) + dy) \<noteq> endp s"
  shows "\<exists>s1 s2. attemptMove ev dx dy s = Inr s1 \<and> undo s1 = Inr s2 \<and>
     player s2 = player s \<and> undoStack s2 = undoStack s \<and> sameFrame s s2 \<and>
     (\<forall>x y. inBounds s x y \<longrightarrow> deadEnd (cellAt s2 x y) =
        (if revChecked ev
         then deadEnd (cellAt s x y) \<and>
              \<not> ((x, y) = (fst (player s) + dx, snd (player s) + dy) \<and>
                 (fst (player s) + dx, snd (player s) + dy) \<noteq> start s)
         else if (x, y) \<in> set (nearCells (fst (player s)) (snd (player s)))
              then isDeadEndSpec s x y else deadEnd (cellAt s x y)))"
proof -
  let ?px = "fst (player s)" and ?py = "snd (player s)"
  let ?nx = "?px + dx" and ?ny = "?py + dy"
  have d: "inBounds s ?nx ?ny" using w by (simp add: walkable_def)
  have pi: "inBounds s ?px ?py" and pnf: "\<not> filled (cellAt s ?px ?py)"
    using pw by (simp_all add: walkable_def)
  have near: "(?nx, ?ny) \<in> set (nearCells ?px ?py)"
    using unit_near[OF unit, of ?px ?py] by simp
  show ?thesis
  proof (cases "revChecked ev")
    case False
    from applyMove_fill[OF wf pw d near False] obtain s3 where
      a: "applyMove ev ?nx ?ny s = Inr s3" and w3: "wf_state s3" and p3: "player s3 = (?nx, ?ny)" and
      u3: "undoStack s3 = \<lparr>prevX = ?px, prevY = ?py, snapFilled = Some (?px, ?py)\<rparr> # undoStack s" and
      fr3: "sameFrame (fillAt True ?px ?py s) s3" and
      fl3: "\<forall>x y. inBounds s x y \<longrightarrow> deadEnd (cellAt s3 x y) =
        (if (x, y) \<in> set (nearCells ?px ?py) then isDeadEndSpec (fillAt True ?px ?py s) x y
         else deadEnd (cellAt s x y))"
      by blast
    have e3: "endp s3 = endp s" using fr3 fillAt_props(7)[OF wf pi] by (simp add: sameFrame_def)
    have ib3: "\<And>x y. inBounds s3 x y = inBounds s x y"
      using fr3 fillAt_props(2)[OF wf pi] by (simp add: sameFrame_inBounds)
    have m: "attemptMove ev dx dy s = Inr s3"
      using attemptMove_walkable[OF wf w a w3] checkCompletion_other[of s3 ev] p3 e3 ne by simp
    have pi3: "inBounds s3 ?px ?py" using pi ib3 by simp
    from undo_fill[OF w3 u3 _ pi3] obtain s4 where
      un: "undo s3 = Inr s4" and w4: "wf_state s4" and p4: "player s4 = (?px, ?py)" and
      u4: "undoStack s4 = undoStack s" and
      fr4: "sameFrame (fillAt False ?px ?py s3) s4" and
      fl4: "\<forall>x y. inBounds s3 x y \<longrightarrow> deadEnd (cellAt s4 x y) =
        (if (x, y) \<in> set (nearCells ?px ?py) then isDeadEndSpec (fillAt False ?px ?py s3) x y
         else deadEnd (cellAt s3 x y))"
      by auto
    have bk: "sameFrame s (fillAt False ?px ?py s3)"
      by (rule unfill_refill[OF wf w3 pi fr3 pnf])
    have fr: "sameFrame s s4" by (rule sameFrame_trans[OF bk fr4])
    have "\<forall>x y. inBounds s x y \<longrightarrow> deadEnd (cellAt s4 x y) =
        (if (x, y) \<in> set (nearCells ?px ?py) then isDeadEndSpec s x y else deadEnd (cellAt s x y))"
    proof (intro allI impI)
      fix x y assume i: "inBounds s x y"
      show "deadEnd (cellAt s4 x y) =
        (if (x, y) \<in> set (nearCells ?px ?py) then isDeadEndSpec s x y else deadEnd (cellAt s x y))"
        using fl4 fl3 i ib3 isDeadEndSpec_frame[OF bk i] by simp
    qed
    then show ?thesis using m un p4 u4 fr False by (intro exI[of _ s3] exI[of _ s4]) simp
  next
    case True
    let ?s3 = "moved ev ?nx ?ny None s"
    note mp = moved_props[OF wf d, where ev = ev and fl = None]
    have a: "applyMove ev ?nx ?ny s = Inr ?s3" by (rule applyMove_nofill[OF wf d True])
    have e3: "endp ?s3 = endp s" using mp(2) by (simp add: sameFrame_def)
    have m: "attemptMove ev dx dy s = Inr ?s3"
      using attemptMove_walkable[OF wf w a mp(1)] checkCompletion_other[of ?s3 ev] mp(4) e3 ne
      by simp
    let ?s4 = "?s3\<lparr>undoStack := undoStack s, player := (?px, ?py)\<rparr>"
    have un: "undo ?s3 = Inr ?s4"
      using undo_nofill[OF mp(1) mp(3)] by simp
    have ge: "gridEq ?s3 ?s4" by (simp add: gridEq_def)
    note cg = gridEq_cong[OF ge]
    have fr: "sameFrame s ?s4" by (rule sameFrame_trans[OF mp(2) cg(8)])
    have "\<forall>x y. inBounds s x y \<longrightarrow> deadEnd (cellAt ?s4 x y) =
        (deadEnd (cellAt s x y) \<and> \<not> ((x, y) = (?nx, ?ny) \<and> (?nx, ?ny) \<noteq> start s))"
      unfolding cg(2) using mp(5) ne by simp
    moreover have "player ?s4 = player s" "undoStack ?s4 = undoStack s" by simp_all
    ultimately show ?thesis
      using m un fr True by (intro exI[of _ ?s3] exI[of _ ?s4]) simp
  qed
qed

theorem attemptMove_undo_restores_witness:
  "wf_state gen5 \<and> walkable gen5 (fst (player gen5)) (snd (player gen5)) \<and>
   (0, 1) \<in> set dirs4 \<and>
   walkable gen5 (fst (player gen5) + 0) (snd (player gen5) + 1) \<and>
   (fst (player gen5) + 0, snd (player gen5) + 1) \<noteq> endp gen5 \<and>
   (\<exists>s1 s2. attemptMove env0 0 1 gen5 = Inr s1 \<and> undo s1 = Inr s2 \<and>
     player s2 = player gen5 \<and> undoStack s2 = undoStack gen5 \<and> sameFrame gen5 s2 \<and>
     (\<forall>x y. inBounds gen5 x y \<longrightarrow> deadEnd (cellAt s2 x y) =
        (if revChecked env0
         then deadEnd (cellAt gen5 x y) \<and>
              \<not> ((x, y) = (fst (player gen5) + 0, snd (player gen5) + 1) \<and>
                 (fst (player gen5) + 0, snd (player gen5) + 1) \<noteq> start gen5)
         else if (x, y) \<in> set (nearCells (fst (player gen5)) (snd (player gen5)))
              then isDeadEndSpec gen5 x y else deadEnd (cellAt gen5 x y))))"
proof -
  have h1: "wf_state gen5" by code_simp
  have h2: "walkable gen5 (fst (player gen5)) (snd (player gen5))" by code_simp
  have h3: "(0, 1) \<in> set dirs4" by (simp add: dirs4_def)
  have h4: "walkable gen5 (fst (player gen5) + 0) (snd (player gen5) + 1)" by code_simp
  have h5: "(fst (player gen5) + 0, snd (player gen5) + 1) \<noteq> endp gen5" by code_simp
  note t = attemptMove_undo_restores[OF h1 h2 h3 h4 h5, of env0]
  show ?thesis
    by (rule conjI[OF h1 conjI[OF h2 conjI[OF h3 conjI[OF h4 conjI[OF h5 t]]]]])
qed

text \<open>
  \<^bold>\<open>C4\<close> as stated fails in reverse mode: from \<open>stepped5\<close> the step left lands on
  \<open>(1, 3)\<close>, whose flag is set; the move awards the bonus and clears the flag, nothing is
  filled, and \<^verbatim>\<open>undo\<close> moves the agent back without setting the flag again.
\<close>

theorem attemptMove_undo_counterexample:
  "attemptMove envRev (-1) 0 stepped5 = Inr bonus5 \<and> undo bonus5 = Inr undone5 \<and>
   deadEnd (cellAt stepped5 1 3) \<and> \<not> deadEnd (cellAt undone5 1 3)"
  by code_simp


section \<open>Connectivity of generated mazes\<close>

lemma set_swapAt: "i < length xs \<Longrightarrow> j < length xs \<Longrightarrow> set (swapAt xs i j) = set xs"
  using mset_swapAt[of i xs j] by (metis set_mset_mset)

lemma set_shuffledDirs: "set (shuffledDirs rnd k) = set twoSteps"
proof -
  let ?d0 = "[(2, 0), (-2, 0), (0, 2), (0, -2)] :: coord list"
  let ?d1 = "swapAt ?d0 3 (rnd k mod 4)"
  let ?d2 = "swapAt ?d1 2 (rnd (k + 1) mod 3)"
  let ?d3 = "swapAt ?d2 1 (rnd (k + 2) mod 2)"
  have a: "rnd (k + 1) mod 3 < 4" "rnd (k + 2) mod 2 < 4"
    by (rule less_trans[OF mod_less_divisor], simp, simp)+
  have "set ?d1 = set ?d0" by (rule set_swapAt) simp_all
  moreover have "set ?d2 = set ?d1"
    by (rule set_swapAt) (simp_all add: length_swapAt a)
  moreover have "set ?d3 = set ?d2"
    by (rule set_swapAt) (simp_all add: length_swapAt a)
  ultimately have "set ?d3 = set ?d0" by simp
  then show ?thesis by (simp only: shuffledDirs_def Let_def twoSteps_def)
qed

lemma plainGrid_getCell:
  assumes "plainGrid C R m" "0 \<le> x" "x < C" "0 \<le> y" "y < R"
  shows "\<exists>c. getCell m x y = Inr c"
proof -
  have y: "nat y < length m" using assms by (auto simp: plainGrid_def)
  then have "int (length (m ! nat y)) = C"
    using assms(1) by (simp add: plainGrid_def list_all_length)
  then show ?thesis using assms y by (simp add: getCell_def plainGrid_def)
qed

lemma not_isPath_wall:
  "getCell m x y = Inr c \<Longrightarrow> (\<not> isPath m x y) = (ctype c = Wall)"
  by (cases "ctype c") (simp_all add: isPath_def)

lemma isPath_setCell:
  assumes "getCell m x y = Inr c"
  shows "isPath (setCell m x y (c'\<lparr>ctype := Path\<rparr>)) a b \<longleftrightarrow> (a = x \<and> b = y) \<or> isPath m a b"
  by (auto simp: isPath_def getCell_setCell[OF assms])

lemma reach_refl: "reach m p p"
  unfolding reach_def by (rule exI[of _ "[p]"]) simp

lemma reach_step:
  assumes "reach m p q" and "r \<in> set (pathNbrs m q)"
  shows "reach m p r"
proof -
  from assms(1) obtain w where w: "isWalk (pathNbrs m) w" "hd w = p" "last w = q"
    unfolding reach_def by blast
  have ne: "w \<noteq> []" using w(1) by auto
  have "isWalk (pathNbrs m) (w @ [r])" using w assms(2) by (simp add: isWalk_snoc)
  moreover have "hd (w @ [r]) = p" using ne w(2) by simp
  ultimately show ?thesis unfolding reach_def by (intro exI[of _ "w @ [r]"]) simp
qed

lemma isWalk_mono:
  "(\<And>u. set (A u) \<subseteq> set (B u)) \<Longrightarrow> isWalk A w \<Longrightarrow> isWalk B w"
  by (induction A w rule: isWalk.induct) auto

lemma reach_mono:
  assumes "\<And>a b. isPath m a b \<Longrightarrow> isPath m' a b" and "reach m p q"
  shows "reach m' p q"
proof -
  have "\<And>u. set (pathNbrs m u) \<subseteq> set (pathNbrs m' u)"
    using assms(1) by (auto simp: pathNbrs_def)
  then show ?thesis using assms(2) isWalk_mono[of "pathNbrs m" "pathNbrs m'"]
    unfolding reach_def by blast
qed

lemma twoSteps_mid:
  assumes "d \<in> set twoSteps" "interior C R (cx, cy)" "interior C R (cx + fst d, cy + snd d)"
  shows "interior C R (cx + fst d div 2, cy + snd d div 2)"
  using assms by (auto simp: twoSteps_def interior_def)

lemma twoSteps_nbrs:
  assumes "d \<in> set twoSteps"
  shows "(cx + fst d div 2, cy + snd d div 2) \<in> set (map (\<lambda>e. (cx + fst e, cy + snd e)) dirs4)"
    and "(cx + fst d, cy + snd d)
           \<in> set (map (\<lambda>e. (cx + fst d div 2 + fst e, cy + snd d div 2 + snd e)) dirs4)"
  using assms by (auto simp: twoSteps_def dirs4_def)

lemma twoSteps_room:
  assumes "d \<in> set twoSteps" "room C R (cx, cy)"
  shows "room C R (cx + fst d, cy + snd d) = interior C R (cx + fst d, cy + snd d)"
    and "\<not> room C R (cx + fst d div 2, cy + snd d div 2)"
  using assms by (auto simp: twoSteps_def room_def) presburger+

lemma interior_getCell:
  assumes "plainGrid C R m" "interior C R (x, y)"
  shows "\<exists>c. getCell m x y = Inr c"
  using assms by (intro plainGrid_getCell[of C R]) (auto simp: interior_def)

lemma tryCarve_cases:
  assumes pg: "plainGrid C R m" and rc: "room C R (cx, cy)"
  shows "set ds \<subseteq> set twoSteps \<Longrightarrow>
    (tryCarve C R m cx cy ds = Inr None \<and>
       (\<forall>d\<in>set ds. interior C R (cx + fst d, cy + snd d) \<longrightarrow> isPath m (cx + fst d) (cy + snd d))) \<or>
    (\<exists>d\<in>set ds. \<exists>m'.
       tryCarve C R m cx cy ds = Inr (Some (m', (cx + fst d, cy + snd d))) \<and>
       interior C R (cx + fst d, cy + snd d) \<and> plainGrid C R m' \<and>
       (\<forall>a b. isPath m' a b \<longleftrightarrow>
          (a = cx + fst d div 2 \<and> b = cy + snd d div 2) \<or> (a = cx + fst d \<and> b = cy + snd d) \<or>
          isPath m a b))"
proof (induction ds)
  case Nil
  then show ?case by simp
next
  case (Cons d ds)
  let ?nx = "cx + fst d" and ?ny = "cy + snd d"
  let ?mx = "cx + fst d div 2" and ?my = "cy + snd d div 2"
  have d: "d \<in> set twoSteps" and ds: "set ds \<subseteq> set twoSteps" using Cons.prems by auto
  note IH = Cons.IH[OF ds]
  have ic: "interior C R (cx, cy)" using rc by (simp add: room_def)
  show ?case
  proof (cases "interior C R (?nx, ?ny)")
    case False
    then have "tryCarve C R m cx cy (d # ds) = tryCarve C R m cx cy ds"
      by (auto simp: Let_def interior_def)
    then show ?thesis using IH False by auto
  next
    case True
    then have inb: "?nx > 0 \<and> ?nx < C - 1 \<and> ?ny > 0 \<and> ?ny < R - 1" by (simp add: interior_def)
    from interior_getCell[OF pg True] obtain c where c: "getCell m ?nx ?ny = Inr c" by blast
    show ?thesis
    proof (cases "isPath m ?nx ?ny")
      case True
      then have "ctype c \<noteq> Wall" using c by (simp add: isPath_def)
      then have "tryCarve C R m cx cy (d # ds) = tryCarve C R m cx cy ds"
        using c inb by (simp add: Let_def)
      then show ?thesis using IH True by auto
    next
      case False
      then have w: "ctype c = Wall" using not_isPath_wall[OF c] by simp
      from interior_getCell[OF pg twoSteps_mid[OF d ic True]] obtain mid where
        mid: "getCell m ?mx ?my = Inr mid" by blast
      let ?m1 = "setCell m ?mx ?my (mid\<lparr>ctype := Path\<rparr>)"
      have "\<exists>c'. getCell ?m1 ?nx ?ny = Inr c'"
        using c by (simp add: getCell_setCell[OF mid])
      then obtain c' where c': "getCell ?m1 ?nx ?ny = Inr c'" by blast
      let ?m2 = "setCell ?m1 ?nx ?ny (c'\<lparr>ctype := Path\<rparr>)"
      have r: "tryCarve C R m cx cy (d # ds) = Inr (Some (?m2, (?nx, ?ny)))"
        using inb c w mid c' by (simp add: Let_def)
      have p1: "plainGrid C R ?m1" using plainGrid_path pg mid unfolding pathClosed_def by blast
      have p2: "plainGrid C R ?m2" using plainGrid_path p1 c' unfolding pathClosed_def by blast
      have ip: "\<forall>a b. isPath ?m2 a b \<longleftrightarrow>
          (a = ?mx \<and> b = ?my) \<or> (a = ?nx \<and> b = ?ny) \<or> isPath m a b"
        by (auto simp: isPath_setCell[OF c'] isPath_setCell[OF mid])
      have "\<exists>m'. tryCarve C R m cx cy (d # ds) = Inr (Some (m', (?nx, ?ny))) \<and>
       interior C R (?nx, ?ny) \<and> plainGrid C R m' \<and>
       (\<forall>a b. isPath m' a b \<longleftrightarrow>
          (a = ?mx \<and> b = ?my) \<or> (a = ?nx \<and> b = ?ny) \<or> isPath m a b)"
        using r True p2 ip by blast
      then show ?thesis by (intro disjI2 bexI[of _ d]) simp_all
    qed
  qed
qed

lemma dfsInv_pop:
  assumes inv: "dfsInv C R m (cur # rest)"
    and full: "\<forall>d\<in>set twoSteps. interior C R (fst cur + fst d, snd cur + snd d) \<longrightarrow>
                 isPath m (fst cur + fst d) (snd cur + snd d)"
  shows "dfsInv C R m rest"
proof -
  have a: "\<forall>p. room C R p \<and> isPath m (fst p) (snd p) \<and> p \<notin> set (cur # rest) \<longrightarrow>
          (\<forall>d\<in>set twoSteps. interior C R (fst p + fst d, snd p + snd d) \<longrightarrow>
               isPath m (fst p + fst d) (snd p + snd d))"
    using inv unfolding dfsInv_def by blast
  have "\<forall>p. room C R p \<and> isPath m (fst p) (snd p) \<and> p \<notin> set rest \<longrightarrow>
          (\<forall>d\<in>set twoSteps. interior C R (fst p + fst d, snd p + snd d) \<longrightarrow>
               isPath m (fst p + fst d) (snd p + snd d))"
  proof (intro allI impI)
    fix p assume p: "room C R p \<and> isPath m (fst p) (snd p) \<and> p \<notin> set rest"
    show "\<forall>d\<in>set twoSteps. interior C R (fst p + fst d, snd p + snd d) \<longrightarrow>
               isPath m (fst p + fst d) (snd p + snd d)"
    proof (cases "p = cur")
      case True
      then show ?thesis using full by simp
    next
      case False
      then show ?thesis using a p by simp
    qed
  qed
  moreover have "plainGrid C R m" "\<forall>p\<in>set rest. room C R p \<and> isPath m (fst p) (snd p)"
    "\<forall>x y. isPath m x y \<longrightarrow> reach m (1, 1) (x, y)"
    using inv unfolding dfsInv_def by simp_all
  ultimately show ?thesis unfolding dfsInv_def by blast
qed

lemma dfsInv_carve:
  assumes inv: "dfsInv C R m (cur # rest)"
    and d: "d \<in> set twoSteps"
    and itr: "interior C R (fst cur + fst d, snd cur + snd d)"
    and pg: "plainGrid C R m'"
    and ip: "\<forall>a b. isPath m' a b \<longleftrightarrow>
          (a = fst cur + fst d div 2 \<and> b = snd cur + snd d div 2) \<or>
          (a = fst cur + fst d \<and> b = snd cur + snd d) \<or> isPath m a b"
  shows "dfsInv C R m' ((fst cur + fst d, snd cur + snd d) # cur # rest)"
proof -
  let ?n = "(fst cur + fst d, snd cur + snd d)"
  let ?mid = "(fst cur + fst d div 2, snd cur + snd d div 2)"
  have st: "\<forall>p\<in>set (cur # rest). room C R p \<and> isPath m (fst p) (snd p)"
    and rch: "\<forall>x y. isPath m x y \<longrightarrow> reach m (1, 1) (x, y)"
    and fin: "\<forall>p. room C R p \<and> isPath m (fst p) (snd p) \<and> p \<notin> set (cur # rest) \<longrightarrow>
          (\<forall>d\<in>set twoSteps. interior C R (fst p + fst d, snd p + snd d) \<longrightarrow>
               isPath m (fst p + fst d) (snd p + snd d))"
    using inv unfolding dfsInv_def by blast+
  have mono: "\<And>a b. isPath m a b \<Longrightarrow> isPath m' a b" using ip by simp
  have rc: "room C R (fst cur, snd cur)" and pc: "isPath m (fst cur) (snd cur)" using st by simp_all
  have rn: "room C R ?n" using twoSteps_room(1)[OF d rc] itr by simp
  have nm: "\<not> room C R ?mid" using twoSteps_room(2)[OF d rc] .
  have pm: "isPath m' (fst ?mid) (snd ?mid)" and pn: "isPath m' (fst ?n) (snd ?n)"
    using ip by simp_all
  have r0: "reach m' (1, 1) cur"
    using reach_mono[of m m', OF mono] rch pc by (metis prod.collapse)
  have "?mid \<in> set (pathNbrs m' cur)"
    using twoSteps_nbrs(1)[OF d, of "fst cur" "snd cur"] pm by (simp add: pathNbrs_def)
  then have r1: "reach m' (1, 1) ?mid" using reach_step[OF r0] by blast
  have "?n \<in> set (pathNbrs m' ?mid)"
    using twoSteps_nbrs(2)[OF d, of "fst cur" "snd cur"] pn by (simp add: pathNbrs_def)
  then have r2: "reach m' (1, 1) ?n" using reach_step[OF r1] by blast
  have A: "\<forall>p\<in>set (?n # cur # rest). room C R p \<and> isPath m' (fst p) (snd p)"
    using st rn pn mono by auto
  have B: "\<forall>x y. isPath m' x y \<longrightarrow> reach m' (1, 1) (x, y)"
  proof (intro allI impI)
    fix x y assume "isPath m' x y"
    then consider "(x, y) = ?mid" | "(x, y) = ?n" | "isPath m x y" using ip by auto
    then show "reach m' (1, 1) (x, y)"
    proof cases
      case 1 then show ?thesis using r1 by simp
    next
      case 2 then show ?thesis using r2 by simp
    next
      case 3 then show ?thesis using reach_mono[of m m', OF mono] rch by blast
    qed
  qed
  have D: "\<forall>p. room C R p \<and> isPath m' (fst p) (snd p) \<and> p \<notin> set (?n # cur # rest) \<longrightarrow>
          (\<forall>d\<in>set twoSteps. interior C R (fst p + fst d, snd p + snd d) \<longrightarrow>
               isPath m' (fst p + fst d) (snd p + snd d))"
  proof (intro allI impI)
    fix p assume p: "room C R p \<and> isPath m' (fst p) (snd p) \<and> p \<notin> set (?n # cur # rest)"
    have "p \<noteq> ?mid" using p nm by auto
    moreover have "p \<noteq> ?n" using p by simp
    ultimately have "isPath m (fst p) (snd p)" using p ip by (metis prod.collapse)
    then have "\<forall>d\<in>set twoSteps. interior C R (fst p + fst d, snd p + snd d) \<longrightarrow>
               isPath m (fst p + fst d) (snd p + snd d)"
      using fin p by simp
    then show "\<forall>d\<in>set twoSteps. interior C R (fst p + fst d, snd p + snd d) \<longrightarrow>
               isPath m' (fst p + fst d) (snd p + snd d)"
      using mono by blast
  qed
  show ?thesis unfolding dfsInv_def using pg A B D by blast
qed

lemma carveLoop_dfs:
  "dfsInv C R m stack \<Longrightarrow>
     \<exists>m' k'. carveLoop C R rnd k m stack = Inr (m', k') \<and> dfsInv C R m' []"
proof (induction C R rnd k m stack rule: carveLoop.induct)
  case (1 C R rnd k m stack)
  show ?case
  proof (cases stack)
    case Nil
    then show ?thesis using "1.prems" by (simp add: carveLoop.simps)
  next
    case (Cons cur rest)
    have pg: "plainGrid C R m" and rc: "room C R (fst cur, snd cur)"
      using "1.prems" Cons unfolding dfsInv_def by simp_all
    have sub: "set (shuffledDirs rnd k) \<subseteq> set twoSteps" by (simp add: set_shuffledDirs)
    from tryCarve_cases[OF pg rc sub] show ?thesis
    proof (elim disjE conjE bexE exE)
      assume t: "tryCarve C R m (fst cur) (snd cur) (shuffledDirs rnd k) = Inr None"
        and full: "\<forall>d\<in>set (shuffledDirs rnd k).
           interior C R (fst cur + fst d, snd cur + snd d) \<longrightarrow>
           isPath m (fst cur + fst d) (snd cur + snd d)"
      have "dfsInv C R m rest"
        using dfsInv_pop[of C R m cur rest] "1.prems" Cons full by (simp add: set_shuffledDirs)
      from "1.IH"(1)[OF Cons t refl this]
      show ?thesis using Cons t by (simp add: carveLoop.simps[of C R rnd k m "cur # rest"])
    next
      fix d m'
      assume d: "d \<in> set (shuffledDirs rnd k)"
        and t: "tryCarve C R m (fst cur) (snd cur) (shuffledDirs rnd k) =
                  Inr (Some (m', (fst cur + fst d, snd cur + snd d)))"
        and itr: "interior C R (fst cur + fst d, snd cur + snd d)"
        and pg': "plainGrid C R m'"
        and ip: "\<forall>a b. isPath m' a b \<longleftrightarrow>
          (a = fst cur + fst d div 2 \<and> b = snd cur + snd d div 2) \<or>
          (a = fst cur + fst d \<and> b = snd cur + snd d) \<or> isPath m a b"
      have d2: "d \<in> set twoSteps" using d by (simp add: set_shuffledDirs)
      have "dfsInv C R m' ((fst cur + fst d, snd cur + snd d) # stack)"
        using dfsInv_carve[OF _ d2 itr pg' ip, of rest] "1.prems" Cons by simp
      from "1.IH"(2)[OF Cons t refl refl this]
      show ?thesis using Cons t by (simp add: carveLoop.simps[of C R rnd k m "cur # rest"])
    qed
  qed
qed

lemma rooms_carved:
  assumes inv: "dfsInv C R m []" and p11: "isPath m 1 1" and r: "room C R (x, y)"
  shows "isPath m x y"
proof -
  have nxt: "\<And>a b d. room C R (a, b) \<Longrightarrow> isPath m a b \<Longrightarrow> d \<in> set twoSteps \<Longrightarrow>
      interior C R (a + fst d, b + snd d) \<Longrightarrow> isPath m (a + fst d) (b + snd d)"
    using inv unfolding dfsInv_def by fastforce
  have col: "room C R (1, 2 * int j + 1) \<Longrightarrow> isPath m 1 (2 * int j + 1)" for j
  proof (induction j)
    case 0
    then show ?case using p11 by simp
  next
    case (Suc j)
    have "room C R (1, 2 * int j + 1)" using Suc.prems by (simp add: room_def interior_def)
    then have a: "room C R (1, 2 * int j + 1)" "isPath m 1 (2 * int j + 1)"
      using Suc.IH by simp_all
    have "interior C R (1 + fst (0 :: int, 2 :: int), 2 * int j + 1 + snd (0 :: int, 2 :: int))"
      using Suc.prems by (simp add: room_def algebra_simps)
    from nxt[OF a _ this] have "isPath m (1 + 0) (2 * int j + 1 + 2)"
      by (simp add: twoSteps_def)
    then show ?case by (simp add: algebra_simps)
  qed
  have all: "room C R (2 * int i + 1, 2 * int j + 1) \<Longrightarrow> isPath m (2 * int i + 1) (2 * int j + 1)"
    for i j
  proof (induction i)
    case 0
    then show ?case using col by simp
  next
    case (Suc i)
    have "room C R (2 * int i + 1, 2 * int j + 1)"
      using Suc.prems by (simp add: room_def interior_def)
    then have a: "room C R (2 * int i + 1, 2 * int j + 1)" "isPath m (2 * int i + 1) (2 * int j + 1)"
      using Suc.IH by simp_all
    have "interior C R (2 * int i + 1 + fst (2 :: int, 0 :: int), 2 * int j + 1 + snd (2 :: int, 0 :: int))"
      using Suc.prems by (simp add: room_def algebra_simps)
    from nxt[OF a _ this] have "isPath m (2 * int i + 1 + 2) (2 * int j + 1 + 0)"
      by (simp add: twoSteps_def)
    then show ?case by (simp add: algebra_simps)
  qed
  have "x = 2 * int (nat (x div 2)) + 1" "y = 2 * int (nat (y div 2)) + 1"
    using r unfolding room_def interior_def by (simp_all, presburger+)
  then show ?thesis using all[of "nat (x div 2)" "nat (y div 2)"] r by simp
qed

lemma isPath_replicate: "\<not> isPath (replicate r (replicate c (MazeCell Wall))) x y"
  by (auto simp: isPath_iff getCell_def MazeCell_def split: if_splits)

lemma dfsInv_init:
  assumes pg: "plainGrid C R m0" and wall: "\<forall>x y. \<not> isPath m0 x y"
    and sp: "setPath m0 1 1 = Inr m1" and b: "3 \<le> C" "3 \<le> R"
  shows "dfsInv C R m1 [(1, 1)]"
proof -
  from sp obtain c where c: "getCell m0 1 1 = Inr c" and m1: "m1 = setCell m0 1 1 (c\<lparr>ctype := Path\<rparr>)"
    by (auto simp: setPath_def split: sum.splits)
  have ip: "\<And>a b. isPath m1 a b \<longleftrightarrow> a = 1 \<and> b = 1"
    unfolding m1 using wall by (simp add: isPath_setCell[OF c])
  have "plainGrid C R m1" by (rule setPath_closed[OF plainGrid_path pg sp])
  moreover have "room C R (1, 1)" using b by (simp add: room_def interior_def)
  moreover have "\<forall>x y. isPath m1 x y \<longrightarrow> reach m1 (1, 1) (x, y)"
    by (simp add: ip reach_refl)
  ultimately show ?thesis unfolding dfsInv_def by (auto simp: ip)
qed

lemma oddSize_odd: "oddSize n mod 2 = 1"
  unfolding oddSize_def by presburger

lemma end_room:
  assumes "3 \<le> C" "3 \<le> R" "C mod 2 = 1" "R mod 2 = 1"
  shows "room C R (C - 2, R - 2)"
  using assms unfolding room_def interior_def fst_conv snd_conv by presburger

lemma setPath_total:
  assumes "plainGrid C R m" "0 \<le> x" "x < C" "0 \<le> y" "y < R"
  shows "\<exists>m'. setPath m x y = Inr m' \<and> plainGrid C R m'"
proof -
  from plainGrid_getCell[OF assms] obtain c where c: "getCell m x y = Inr c" by blast
  then have "setPath m x y = Inr (setCell m x y (c\<lparr>ctype := Path\<rparr>))" by (simp add: setPath_def)
  then show ?thesis using setPath_closed[OF plainGrid_path assms(1)] by blast
qed

lemma injectExtras_total:
  assumes "3 \<le> C" "3 \<le> R"
  shows "plainGrid C R m \<Longrightarrow> \<exists>m'. injectExtras i C R pct rnd k m = Inr m' \<and> plainGrid C R m'"
proof (induction i arbitrary: k m)
  case 0
  then show ?case by simp
next
  case (Suc i)
  let ?rx = "1 + int (rnd k mod nat (C - 2))" and ?ry = "1 + int (rnd (k + 1) mod nat (R - 2))"
  show ?case
  proof (cases "rnd (k + 2) mod 100 < pct")
    case False
    then show ?thesis using Suc.IH[OF Suc.prems, of "k + 3"] by (simp add: Let_def)
  next
    case True
    have "rnd k mod nat (C - 2) < nat (C - 2)" "rnd (k + 1) mod nat (R - 2) < nat (R - 2)"
      using assms by simp_all
    then have "0 \<le> ?rx" "?rx < C" "0 \<le> ?ry" "?ry < R" by linarith+
    from plainGrid_getCell[OF Suc.prems this] obtain c where c: "getCell m ?rx ?ry = Inr c"
      by blast
    have "plainGrid C R (setCell m ?rx ?ry (c\<lparr>ctype := Path\<rparr>))"
      using plainGrid_path Suc.prems c unfolding pathClosed_def by blast
    from Suc.IH[OF this, of "k + 3"] show ?thesis using True c by (simp add: Let_def)
  qed
qed

text \<open>
  The generator returns a maze for every requested size of at least 2 by 2: no read of
  the carving, of the extra connections or of the flag recomputation leaves the grid.
\<close>

lemma generateMazeIterative_total:
  assumes "2 \<le> cols s0" "2 \<le> rows s0"
  shows "\<exists>s. generateMazeIterative diff rnd s0 = Inr s"
proof -
  let ?C = "oddSize (cols s0)" and ?R = "oddSize (rows s0)"
  let ?sA = "\<lambda>m. s0\<lparr>cols := ?C, rows := ?R, start := (1, 1), endp := (?C - 2, ?R - 2), maze := m\<rparr>"
  let ?m0 = "replicate (nat ?R) (replicate (nat ?C) (MazeCell Wall))"
  have b3: "3 \<le> ?C" "3 \<le> ?R" using assms unfolding oddSize_def by presburger+
  have p0: "plainGrid ?C ?R ?m0" using b3 by (intro plainGrid_replicate) simp_all
  from setPath_total[OF p0, of 1 1] b3 obtain maze1 where
    m1: "setPath ?m0 1 1 = Inr maze1" by auto
  have "dfsInv ?C ?R maze1 [(1, 1)]"
    by (rule dfsInv_init[OF p0 _ m1 b3]) (simp add: isPath_replicate)
  from carveLoop_dfs[OF this, of rnd 0] obtain maze2 k where
    m2: "carveLoop ?C ?R rnd 0 maze1 [(1, 1)] = Inr (maze2, k)" and inv: "dfsInv ?C ?R maze2 []"
    by blast
  have p2: "plainGrid ?C ?R maze2" using inv by (simp add: dfsInv_def)
  from injectExtras_total[OF b3 p2] obtain maze3 where
    m3: "injectExtras (nat ((?C * ?R * extraPct diff) div 100)) ?C ?R (shufflePct diff) rnd k maze2
           = Inr maze3" and p3: "plainGrid ?C ?R maze3"
    by blast
  from setPath_total[OF p3, of 1 1] b3 obtain maze4 where
    m4: "setPath maze3 1 1 = Inr maze4" and p4: "plainGrid ?C ?R maze4" by auto
  from setPath_total[OF p4, of "?C - 2" "?R - 2"] b3 obtain maze5 where
    m5: "setPath maze4 (?C - 2) (?R - 2) = Inr maze5" and p5: "plainGrid ?C ?R maze5" by auto
  have wfA: "wf_state (?sA maze5)" and nfA: "noFilled (?sA maze5)"
    using plainGrid_state[of "?sA maze5"] p5 by simp_all
  from recomputeAll_agrees[OF wfA nfA] obtain s1 where
    rc: "recomputeAllDeadEnds (?sA maze5) = Inr s1" and wf1: "wf_state s1"
    by blast
  let ?s = "s1\<lparr>player := (1, 1), visitedCount := 1, undoStack := [], score := 0\<rparr>"
  have "wf_state ?s" using wf1 by (simp add: wf_state_def)
  then have hud: "updateHUD ?s = Inr ?s" by (rule updateHUD_wf)
  have "generateMazeIterative diff rnd s0 = Inr ?s"
    unfolding generateMazeIterative_def Let_def
    by (simp only: m1 m2 m3 m4 m5 rc hud sum.case prod.case)
  then show ?thesis by blast
qed

text \<open>
  \<^bold>\<open>C6\<close>. In every state returned by \<^verbatim>\<open>generateMazeIterative\<close>, whatever the requested
  size, the difficulty and the random draws, Start and End are cells of kind \<open>Path\<close> and
  there is a walk from Start to End that moves between four-neighbours and visits only
  cells of kind \<open>Path\<close>; the \<^verbatim>\<open>filled\<close> flag plays no part.
\<close>

theorem generated_end_reachable:
  assumes "generateMazeIterative diff rnd s0 = Inr s"
  shows "isPath (maze s) (fst (start s)) (snd (start s)) \<and>
         isPath (maze s) (fst (endp s)) (snd (endp s)) \<and>
         (\<exists>w. isWalk (pathNbrs (maze s)) w \<and> hd w = start s \<and> last w = endp s)"
proof -
  let ?C = "oddSize (cols s0)" and ?R = "oddSize (rows s0)"
  let ?sA = "\<lambda>m. s0\<lparr>cols := ?C, rows := ?R, start := (1, 1), endp := (?C - 2, ?R - 2), maze := m\<rparr>"
  let ?m0 = "replicate (nat ?R) (replicate (nat ?C) (MazeCell Wall))"
  from generate_steps[OF assms] obtain maze1 maze2 k maze3 maze4 maze5 s1 where
    m1: "setPath ?m0 1 1 = Inr maze1" and
    m2: "carveLoop ?C ?R rnd 0 maze1 [(1, 1)] = Inr (maze2, k)" and
    m3: "injectExtras (nat ((?C * ?R * extraPct diff) div 100)) ?C ?R (shufflePct diff) rnd k maze2
           = Inr maze3" and
    m4: "setPath maze3 1 1 = Inr maze4" and
    m5: "setPath maze4 (?C - 2) (?R - 2) = Inr maze5" and
    rc: "recomputeAllDeadEnds (?sA maze5) = Inr s1" and
    hud: "updateHUD (s1\<lparr>player := (1, 1), visitedCount := 1, undoStack := [], score := 0\<rparr>) = Inr s"
    by blast
  have b2: "2 \<le> ?C \<and> 2 \<le> ?R" by (rule setPath_replicate_bounds[OF m1])
  then have b3: "3 \<le> ?C" "3 \<le> ?R" using oddSize_ge3 by simp_all
  have p0: "plainGrid ?C ?R ?m0" using b2 by (intro plainGrid_replicate) simp_all
  have "dfsInv ?C ?R maze1 [(1, 1)]"
    by (rule dfsInv_init[OF p0 _ m1 b3]) (simp add: isPath_replicate)
  from carveLoop_dfs[OF this, of rnd 0] m2 have inv: "dfsInv ?C ?R maze2 []" by simp
  have i2: "isPath maze2 1 1"
    by (rule carveLoop_closed[OF isPath_mono setPath_isPath[OF m1] m2])
  have e2: "isPath maze2 (?C - 2) (?R - 2)"
    by (rule rooms_carved[OF inv i2 end_room[OF b3 oddSize_odd oddSize_odd]])
  have r2: "reach maze2 (1, 1) (?C - 2, ?R - 2)"
    using inv e2 unfolding dfsInv_def by blast
  have up: "isPath maze5 a b" if "isPath maze2 a b" for a b
  proof -
    have "isPath maze3 a b" by (rule injectExtras_closed[OF isPath_mono that m3])
    then have "isPath maze4 a b" by (rule setPath_closed[OF isPath_mono _ m4])
    then show ?thesis by (rule setPath_closed[OF isPath_mono _ m5])
  qed
  have pc: "pathClosed (plainGrid ?C ?R)" by (rule plainGrid_path)
  have p1: "plainGrid ?C ?R maze1" by (rule setPath_closed[OF pc p0 m1])
  have p2: "plainGrid ?C ?R maze2" by (rule carveLoop_closed[OF pc p1 m2])
  have p3: "plainGrid ?C ?R maze3" by (rule injectExtras_closed[OF pc p2 m3])
  have p4: "plainGrid ?C ?R maze4" by (rule setPath_closed[OF pc p3 m4])
  have p5: "plainGrid ?C ?R maze5" by (rule setPath_closed[OF pc p4 m5])
  have wfA: "wf_state (?sA maze5)" and nfA: "noFilled (?sA maze5)"
    using plainGrid_state[of "?sA maze5"] p5 by simp_all
  from recomputeAll_agrees[OF wfA nfA] rc obtain n m where
    fr: "sameFrame (?sA maze5) s1" and wf1: "wf_state s1" and
    s1: "s1 = (?sA maze5)\<lparr>originalPathCount := n, maze := m\<rparr>"
    by auto
  have s: "s = s1\<lparr>player := (1, 1), visitedCount := 1, undoStack := [], score := 0\<rparr>"
    using updateHUD_same[OF hud] .
  have fin: "isPath (maze s) a b" if "isPath maze5 a b" for a b
  proof -
    from that obtain c where "getCell maze5 a b = Inr c" unfolding isPath_iff by blast
    then have "0 \<le> b \<and> nat b < length maze5 \<and> 0 \<le> a \<and> nat a < length (maze5 ! nat b)"
      by (auto simp: getCell_def split: if_splits)
    then have ib: "inBounds (?sA maze5) a b"
      using wfA by (auto simp: wf_state_iff inBounds_def)
    then have ib1: "inBounds s1 a b" using s1 by (simp add: inBounds_def)
    have "ctype (cellAt (?sA maze5) a b) = Path"
      using isPath_cellAt[of "?sA maze5" a b] that by simp
    then have "ctype (cellAt s1 a b) = Path" using fr ib by (simp add: sameFrame_def)
    then have "isPath (maze s1) a b" using getCell_wf[OF wf1 ib1] by (simp add: isPath_iff)
    then show ?thesis by (simp add: s)
  qed
  have mono: "\<And>a b. isPath maze2 a b \<Longrightarrow> isPath (maze s) a b" using up fin by blast
  have se: "start s = (1, 1)" "endp s = (?C - 2, ?R - 2)" using s s1 by simp_all
  have "reach (maze s) (1, 1) (?C - 2, ?R - 2)" by (rule reach_mono[OF mono r2])
  then show ?thesis using mono[OF i2] mono[OF e2] unfolding reach_def se by simp
qed

theorem generated_end_reachable_witness:
  "generateMazeIterative Normal (\<lambda>k. 0) fresh5 = Inr gen5 \<and>
   isPath (maze gen5) 1 1 \<and> isPath (maze gen5) 3 3 \<and>
   (\<exists>w. isWalk (pathNbrs (maze gen5)) w \<and> hd w = (1, 1) \<and> last w = (3, 3))"
proof -
  have g: "generateMazeIterative Normal (\<lambda>k. 0) fresh5 = Inr gen5" by (rule gen5_generated)
  have "start gen5 = (1, 1)" "endp gen5 = (3, 3)" by (simp_all add: gen5_def)
  then show ?thesis using generated_end_reachable[OF g] g by simp
qed

end
